theory Spec2Isabelle
  imports Complex_Main "HOL-Library.AList"
begin

section \<open>Data model of the asynchronous successive halving searcher (asha.go)\<close>

text \<open>
  Go's \<open>int\<close> is modelled by \<open>int\<close> (no overflow is reachable at the sizes of a search),
  \<open>len\<close> by \<open>length\<close>. A \<open>float64\<close> is modelled by the rational number it denotes:
  the program only compares and negates metrics, which is exact on every float that is a
  number; NaN and the infinities are not values of the model, and a division whose result is
  not a number is a failure of the model. A \<open>RequestID\<close> is a natural number.
\<close>

type_synonym RequestID = nat
type_synonym float64 = rat

text \<open>Runtime panics, and conversions the language leaves undefined.\<close>

datatype go_panic = IndexOutOfRange | MakeSliceOutOfRange | NonFiniteToInt

text \<open>Error values returned to the caller.\<close>

datatype go_error = MissingMetric

record trialMetric =
  requestID :: RequestID
  metric :: float64
  promoted :: bool
  closed :: bool

record rung =
  stepsNeeded :: int
  outstandingTrials :: int
  metrics :: "trialMetric list"

record AsyncHalvingConfig =
  Metric :: string
  SmallerIsBetter :: bool
  TargetTrialSteps :: int
  MaxTrials :: int
  Divisor :: float64
  NumRungs :: int
  MaxConcurrentTrials :: int

text \<open>
  \<open>trialRungs\<close> is a Go map that the program reads, writes and measures with \<open>len\<close> but
  never iterates: an association list with at most one pair for a key.
  \<open>earlyExitTrials\<close> is a Go map to \<open>bool\<close>; reading an absent key gives \<open>false\<close>.
\<close>

record asyncHalvingSearch =
  config :: AsyncHalvingConfig
  rungs :: "rung list"
  trialRungs :: "(RequestID \<times> int) list"
  earlyExitTrials :: "RequestID \<rightharpoonup> bool"
  maxTrials :: int
  trialsCompleted :: int

datatype WorkloadKind = RunStep | ComputeValidationMetrics | CheckpointModel

record Workload =
  Kind :: WorkloadKind
  ExperimentID :: int
  TrialID :: int
  StepID :: int

datatype Operation =
    Create RequestID
  | Train RequestID int int
  | Validate RequestID int
  | Close RequestID

type_synonym ValidationMetrics = "string \<rightharpoonup> float64"

text \<open>
  The search context: \<open>ctx.rand\<close> is the generator the identifiers of new trials are drawn
  from. The sampled hyperparameters do not influence the searcher and are left out.
\<close>

record search_context =
  rand :: nat

section \<open>Helpers that are not part of asha.go\<close>

text \<open>
  Modelled from the spec: \<open>NewCreate\<close> is missing from the sources. The spec has trial
  identifiers unique within an experiment, assigned from a monotonic counter.
\<close>

definition NewCreate :: "search_context \<Rightarrow> RequestID \<times> search_context" where
  "NewCreate ctx = (rand ctx, ctx\<lparr>rand := Suc (rand ctx)\<rparr>)"

text \<open>
  Modelled from the spec: \<open>trainAndValidate\<close> is missing from the sources. The spec has a
  \<open>Train\<close> from the first length to the second, followed by a \<open>Validate\<close> at the second.
\<close>

definition trainAndValidate :: "RequestID \<Rightarrow> int \<Rightarrow> int \<Rightarrow> Operation list" where
  "trainAndValidate rid prevStep nextStep = [Train rid prevStep nextStep, Validate rid nextStep]"

text \<open>
  Modelled from the spec: the method \<open>Metric\<close> of \<open>ValidationMetrics\<close> is missing from the
  sources. The spec extracts the scalar at the key and fails with \<open>MissingMetric\<close> if it is
  absent.
\<close>

definition ValidationMetrics_Metric :: "ValidationMetrics \<Rightarrow> string \<Rightarrow> go_error + float64" where
  "ValidationMetrics_Metric vm name = (case vm name of None \<Rightarrow> Inl MissingMetric | Some v \<Rightarrow> Inr v)"

text \<open>\<open>math.MaxFloat64\<close>, the largest finite \<open>float64\<close>.\<close>

definition ashaExitedMetricValue :: float64 where
  "ashaExitedMetricValue = (2 ^ 53 - 1) * 2 ^ 971"

text \<open>
  Float arithmetic: a quotient or power that is not a number is \<open>None\<close>; the conversion
  \<open>int(x)\<close> truncates towards zero and is undefined on what is not a number.
\<close>

definition float_div :: "float64 option \<Rightarrow> float64 option \<Rightarrow> float64 option" where
  "float_div a b =
     (case a of None \<Rightarrow> None
      | Some x \<Rightarrow> (case b of None \<Rightarrow> None
                  | Some y \<Rightarrow> if y = 0 then None else Some (x / y)))"

definition math_Pow :: "float64 \<Rightarrow> int \<Rightarrow> float64 option" where
  "math_Pow x e =
     (if 0 \<le> e then Some (x ^ nat e)
      else if x = 0 then None
      else Some (1 / x ^ nat (- e)))"

definition go_int :: "float64 option \<Rightarrow> go_panic + int" where
  "go_int a =
     (case a of None \<Rightarrow> Inl NonFiniteToInt
      | Some x \<Rightarrow> Inr (if 0 \<le> x then \<lfloor>x\<rfloor> else \<lceil>x\<rceil>))"

text \<open>
  \<open>sort.Search\<close> of the Go library: binary search for the least index in \<open>[0, n)\<close> at which
  \<open>f\<close> holds, \<open>n\<close> if there is none, for an \<open>f\<close> that is false and then true.
\<close>

function Search_loop :: "(nat \<Rightarrow> bool) \<Rightarrow> nat \<Rightarrow> nat \<Rightarrow> nat" where
  "Search_loop f i j =
     (if i < j then
        (let h = (i + j) div 2 in
         if \<not> f h then Search_loop f (h + 1) j else Search_loop f i h)
      else i)"
  by pat_completeness auto
termination
  by (relation "measure (\<lambda>(f, i, j). j - i)") auto

declare Search_loop.simps [simp del]

definition Search :: "nat \<Rightarrow> (nat \<Rightarrow> bool) \<Rightarrow> nat" where
  "Search n f = Search_loop f 0 n"

section \<open>The searcher\<close>

subsection \<open>newAsyncHalvingSearch\<close>

text \<open>The loop over \<open>id\<close> from \<open>0\<close> to \<open>NumRungs - 1\<close>, appending one rung each time.\<close>

definition new_rung :: "AsyncHalvingConfig \<Rightarrow> nat \<Rightarrow> go_panic + rung" where
  "new_rung cfg i =
     (case go_int (float_div (Some (of_int (TargetTrialSteps cfg)))
                     (math_Pow (Divisor cfg) (NumRungs cfg - int i - 1))) of
        Inl p \<Rightarrow> Inl p
      | Inr steps \<Rightarrow>
          Inr \<lparr>stepsNeeded = max steps 1, outstandingTrials = 0, metrics = []\<rparr>)"

fun new_rungs :: "AsyncHalvingConfig \<Rightarrow> nat \<Rightarrow> nat \<Rightarrow> go_panic + rung list" where
  "new_rungs cfg i 0 = Inr []"
| "new_rungs cfg i (Suc k) =
     (case new_rung cfg i of
        Inl p \<Rightarrow> Inl p
      | Inr r \<Rightarrow> (case new_rungs cfg (Suc i) k of
                    Inl p \<Rightarrow> Inl p
                  | Inr rs \<Rightarrow> Inr (r # rs)))"

definition newAsyncHalvingSearch :: "AsyncHalvingConfig \<Rightarrow> go_panic + asyncHalvingSearch" where
  "newAsyncHalvingSearch cfg =
     (if NumRungs cfg < 0 then Inl MakeSliceOutOfRange
      else case new_rungs cfg 0 (nat (NumRungs cfg)) of
        Inl p \<Rightarrow> Inl p
      | Inr rs \<Rightarrow>
          Inr \<lparr>config = cfg, rungs = rs, trialRungs = [], earlyExitTrials = Map.empty,
               maxTrials = MaxTrials cfg, trialsCompleted = 0\<rparr>)"

subsection \<open>promotionsAsync\<close>

definition promotionsAsync ::
  "rung \<Rightarrow> RequestID \<Rightarrow> float64 \<Rightarrow> float64 \<Rightarrow> go_panic + (rung \<times> RequestID list)" where
  "promotionsAsync r rid m divisor =
     (case go_int (float_div (Some (of_nat (length (metrics r)))) (Some divisor)) of
        Inl p \<Rightarrow> Inl p
      | Inr oldNumPromote \<Rightarrow>
     (case go_int (float_div (Some (of_nat (length (metrics r) + 1))) (Some divisor)) of
        Inl p \<Rightarrow> Inl p
      | Inr numPromote \<Rightarrow>
          (let insertIndex = Search (length (metrics r)) (\<lambda>i. metric (metrics r ! i) > m);
               promoteNow = (int insertIndex < numPromote);
               ms = take insertIndex (metrics r)
                    @ [\<lparr>requestID = rid, metric = m, promoted = promoteNow, closed = False\<rparr>]
                    @ drop insertIndex (metrics r)
           in if promoteNow then Inr (r\<lparr>metrics := ms\<rparr>, [rid])
              else if numPromote \<noteq> oldNumPromote then
                (if 0 \<le> oldNumPromote \<and> nat oldNumPromote < length ms then
                   (if \<not> promoted (ms ! nat oldNumPromote) then
                      Inr (r\<lparr>metrics := ms[nat oldNumPromote :=
                                 (ms ! nat oldNumPromote)\<lparr>promoted := True\<rparr>]\<rparr>,
                           [requestID (ms ! nat oldNumPromote)])
                    else Inr (r\<lparr>metrics := ms\<rparr>, []))
                 else Inl IndexOutOfRange)
              else Inr (r\<lparr>metrics := ms\<rparr>, []))))"

subsection \<open>initialOperations\<close>

text \<open>One pass of the creation loop; the loop runs it \<open>maxConcurrentTrials\<close> times.\<close>

definition create_trial ::
  "asyncHalvingSearch \<Rightarrow> search_context \<Rightarrow>
   go_panic + (asyncHalvingSearch \<times> search_context \<times> Operation list)" where
  "create_trial s ctx =
     (case NewCreate ctx of (rid, ctx') \<Rightarrow>
        (case rungs s of
           [] \<Rightarrow> Inl IndexOutOfRange
         | r0 # rs \<Rightarrow>
             Inr (s\<lparr>rungs := r0\<lparr>outstandingTrials := outstandingTrials r0 + 1\<rparr> # rs,
                    trialRungs := AList.update rid 0 (trialRungs s)\<rparr>,
                  ctx',
                  Create rid # trainAndValidate rid 0 (stepsNeeded r0))))"

fun create_trials ::
  "nat \<Rightarrow> asyncHalvingSearch \<Rightarrow> search_context \<Rightarrow>
   go_panic + (asyncHalvingSearch \<times> search_context \<times> Operation list)" where
  "create_trials 0 s ctx = Inr (s, ctx, [])"
| "create_trials (Suc k) s ctx =
     (case create_trial s ctx of
        Inl p \<Rightarrow> Inl p
      | Inr (s', ctx', ops) \<Rightarrow>
          (case create_trials k s' ctx' of
             Inl p \<Rightarrow> Inl p
           | Inr (s'', ctx'', ops') \<Rightarrow> Inr (s'', ctx'', ops @ ops')))"

definition initialOperations ::
  "asyncHalvingSearch \<Rightarrow> search_context \<Rightarrow>
   go_panic + (asyncHalvingSearch \<times> search_context \<times> Operation list \<times> go_error option)" where
  "initialOperations s ctx =
     (case (if MaxConcurrentTrials (config s) > 0
            then Inr (min (MaxConcurrentTrials (config s)) (MaxTrials (config s)))
            else (case go_int (math_Pow (Divisor (config s)) (NumRungs (config s) - 1)) of
                    Inl p \<Rightarrow> Inl p
                  | Inr n \<Rightarrow> Inr (max (min n (MaxTrials (config s))) 1))) of
        Inl p \<Rightarrow> Inl p
      | Inr maxConcurrentTrials \<Rightarrow>
          (case create_trials (nat maxConcurrentTrials) s ctx of
             Inl p \<Rightarrow> Inl p
           | Inr (s', ctx', ops) \<Rightarrow> Inr (s', ctx', ops, None)))"

subsection \<open>trainCompleted\<close>

definition trainCompleted ::
  "asyncHalvingSearch \<Rightarrow> search_context \<Rightarrow> RequestID \<Rightarrow> Workload \<Rightarrow>
   go_panic + (asyncHalvingSearch \<times> search_context \<times> Operation list \<times> go_error option)" where
  "trainCompleted s ctx rid message = Inr (s, ctx, [], None)"

subsection \<open>closeOutRungs\<close>

text \<open>
  The inner loop over the metrics of one rung: the new metrics, the number of trials
  counted as completed and the operations appended.
\<close>

fun closeOutMetrics ::
  "(RequestID \<rightharpoonup> bool) \<Rightarrow> trialMetric list \<Rightarrow> trialMetric list \<times> int \<times> Operation list" where
  "closeOutMetrics ee [] = ([], 0, [])"
| "closeOutMetrics ee (t # ts) =
     (case closeOutMetrics ee ts of (ts', c, ops) \<Rightarrow>
        if \<not> promoted t \<and> \<not> closed t then
          (t\<lparr>closed := True\<rparr> # ts', c + 1,
           (if ee (requestID t) \<noteq> Some True then [Close (requestID t)] else [])
           @ [Close (requestID t)] @ ops)
        else (t # ts', c, ops))"

text \<open>The outer loop over the rungs, left at the first rung with outstanding trials.\<close>

fun closeOutRungs_loop ::
  "(RequestID \<rightharpoonup> bool) \<Rightarrow> rung list \<Rightarrow> rung list \<times> int \<times> Operation list" where
  "closeOutRungs_loop ee [] = ([], 0, [])"
| "closeOutRungs_loop ee (r # rs) =
     (if outstandingTrials r > 0 then (r # rs, 0, [])
      else (case closeOutMetrics ee (metrics r) of (ms, c, ops) \<Rightarrow>
             (case closeOutRungs_loop ee rs of (rs', c', ops') \<Rightarrow>
                (r\<lparr>metrics := ms\<rparr> # rs', c + c', ops @ ops'))))"

definition closeOutRungs :: "asyncHalvingSearch \<Rightarrow> asyncHalvingSearch \<times> Operation list" where
  "closeOutRungs s =
     (case closeOutRungs_loop (earlyExitTrials s) (rungs s) of (rs, c, ops) \<Rightarrow>
        (s\<lparr>rungs := rs, trialsCompleted := trialsCompleted s + c\<rparr>, ops))"

subsection \<open>promote\<close>

text \<open>Reading \<open>s.trialRungs[requestID]\<close>: an absent key gives the zero value.\<close>

definition trialRungs_lookup :: "asyncHalvingSearch \<Rightarrow> RequestID \<Rightarrow> int" where
  "trialRungs_lookup s rid = (case map_of (trialRungs s) rid of None \<Rightarrow> 0 | Some k \<Rightarrow> k)"

text \<open>
  The loop over the promotions of one insertion. It either runs to its end, with the
  operations and the flag \<open>addedTrainWorkload\<close>, or leaves the function through the
  \<open>return s.promote(...)\<close> of an early-exited trial, whose arguments it hands back.
\<close>

datatype promotions_loop_result =
    Done asyncHalvingSearch "Operation list" bool
  | Recurse asyncHalvingSearch RequestID Workload

fun promotions_loop ::
  "asyncHalvingSearch \<Rightarrow> Workload \<Rightarrow> nat \<Rightarrow> RequestID list \<Rightarrow> Operation list \<Rightarrow> bool \<Rightarrow>
   go_panic + promotions_loop_result" where
  "promotions_loop s message rungIndex [] ops addedTrainWorkload =
     Inr (Done s ops addedTrainWorkload)"
| "promotions_loop s message rungIndex (promotionID # rest) ops addedTrainWorkload =
     (if rungIndex + 1 < length (rungs s) then
        (let rung = rungs s ! rungIndex;
             nextRung = rungs s ! (rungIndex + 1);
             s' = s\<lparr>trialRungs := AList.update promotionID (int rungIndex + 1) (trialRungs s),
                    rungs := (rungs s)[rungIndex + 1 :=
                               nextRung\<lparr>outstandingTrials := outstandingTrials nextRung + 1\<rparr>]\<rparr>
         in if earlyExitTrials s promotionID \<noteq> Some True then
              promotions_loop s' message rungIndex rest
                (ops @ trainAndValidate promotionID (stepsNeeded rung) (stepsNeeded nextRung))
                True
            else
              Inr (Recurse s' promotionID
                     \<lparr>Kind = ComputeValidationMetrics, ExperimentID = ExperimentID message,
                      TrialID = TrialID message, StepID = stepsNeeded nextRung\<rparr>))
      else Inl IndexOutOfRange)"

text \<open>The end of \<open>promote\<close>: a new trial if there is room, and closing out the rungs.\<close>

definition promote_finish ::
  "asyncHalvingSearch \<Rightarrow> search_context \<Rightarrow> Operation list \<Rightarrow> bool \<Rightarrow>
   go_panic + (asyncHalvingSearch \<times> search_context \<times> Operation list)" where
  "promote_finish s ctx ops addedTrainWorkload =
     (let allTrials = int (length (trialRungs s)) in
      case (if \<not> addedTrainWorkload \<and> allTrials < maxTrials s then
              (case create_trial s ctx of
                 Inl p \<Rightarrow> Inl p
               | Inr (s', ctx', cops) \<Rightarrow> Inr (s', ctx', ops @ cops))
            else Inr (s, ctx, ops)) of
        Inl p \<Rightarrow> Inl p
      | Inr (s', ctx', ops') \<Rightarrow>
          if allTrials = maxTrials s then
            (case closeOutRungs s' of (s'', cl) \<Rightarrow> Inr (s'', ctx', ops' @ cl))
          else Inr (s', ctx', ops'))"

function promote ::
  "asyncHalvingSearch \<Rightarrow> search_context \<Rightarrow> RequestID \<Rightarrow> Workload \<Rightarrow> float64 \<Rightarrow>
   go_panic + (asyncHalvingSearch \<times> search_context \<times> Operation list)" where
  "promote s ctx rid message m =
     (if \<not> (0 \<le> trialRungs_lookup s rid \<and> nat (trialRungs_lookup s rid) < length (rungs s))
      then Inl IndexOutOfRange
      else
        (let rungIndex = nat (trialRungs_lookup s rid);
             rung = rungs s ! rungIndex;
             s1 = s\<lparr>rungs := (rungs s)[rungIndex :=
                          rung\<lparr>outstandingTrials := outstandingTrials rung - 1\<rparr>]\<rparr>
         in if int rungIndex = NumRungs (config s) - 1 then
              promote_finish (s1\<lparr>trialsCompleted := trialsCompleted s1 + 1\<rparr>) ctx
                (if earlyExitTrials s rid \<noteq> Some True then [Close rid] else []) False
            else if \<not> rungIndex + 1 < length (rungs s) then Inl IndexOutOfRange
            else
              (case promotionsAsync (rungs s1 ! rungIndex) rid m (Divisor (config s)) of
                 Inl p \<Rightarrow> Inl p
               | Inr (r', promotionIDs) \<Rightarrow>
                   (case promotions_loop (s1\<lparr>rungs := (rungs s1)[rungIndex := r']\<rparr>) message
                           rungIndex promotionIDs [] False of
                      Inl p \<Rightarrow> Inl p
                    | Inr (Done s2 ops addedTrainWorkload) \<Rightarrow>
                        promote_finish s2 ctx ops addedTrainWorkload
                    | Inr (Recurse s2 promotionID wkld) \<Rightarrow>
                        promote s2 ctx promotionID wkld ashaExitedMetricValue))))"
  by pat_completeness auto

lemma length_rungs_promotions_loop:
  "promotions_loop s message k ids ops added = Inr (Recurse s2 pid wkld) \<Longrightarrow>
   length (rungs s2) = length (rungs s) \<and> k + 1 < length (rungs s) \<and>
   map_of (trialRungs s2) pid = Some (int k + 1)"
proof (induction ids arbitrary: s ops added)
  case Nil
  then show ?case by simp
next
  case (Cons a ids)
  show ?case
  proof (cases "k + 1 < length (rungs s)")
    case False
    with Cons.prems show ?thesis by simp
  next
    case inrange: True
    show ?thesis
    proof (cases "earlyExitTrials s a \<noteq> Some True")
      case True
      with Cons.prems inrange have
        "promotions_loop
           (s\<lparr>trialRungs := AList.update a (int k + 1) (trialRungs s),
              rungs := (rungs s)[k + 1 := (rungs s ! (k + 1))
                \<lparr>outstandingTrials := outstandingTrials (rungs s ! (k + 1)) + 1\<rparr>]\<rparr>)
           message k ids
           (ops @ trainAndValidate a (stepsNeeded (rungs s ! k)) (stepsNeeded (rungs s ! (k + 1))))
           True = Inr (Recurse s2 pid wkld)"
        by (simp add: Let_def)
      from Cons.IH [OF this] show ?thesis by simp
    next
      case False
      with Cons.prems inrange show ?thesis
        by (auto simp: Let_def update_conv')
    qed
  qed
qed

termination promote
proof (relation "measure (\<lambda>(s, ctx, rid, message, m).
                   length (rungs s) - nat (trialRungs_lookup s rid))", goal_cases)
  case 1
  show ?case by simp
next
  case (2 s ctx rid message m x xa xb b xaa y ba s2 pid wkld)
  from 2 have loop: "promotions_loop (xb\<lparr>rungs := (rungs xb)[x := xaa]\<rparr>) message x y [] False
      = Inr (Recurse s2 pid wkld)"
    by simp
  have len: "length (rungs (xb\<lparr>rungs := (rungs xb)[x := xaa]\<rparr>)) = length (rungs s)"
    using 2(4) by simp
  from length_rungs_promotions_loop [OF loop] len
  have a: "length (rungs s2) = length (rungs s)" and b: "x + 1 < length (rungs s)"
    and c: "trialRungs_lookup s2 pid = int x + 1"
    by (simp_all add: trialRungs_lookup_def)
  have "nat (trialRungs_lookup s2 pid) = x + 1"
    using c by simp
  with a b 2(2) show ?case
    by simp
qed

declare promote.simps [simp del]

subsection \<open>validationCompleted and trialExitedEarly\<close>

definition validationCompleted ::
  "asyncHalvingSearch \<Rightarrow> search_context \<Rightarrow> RequestID \<Rightarrow> Workload \<Rightarrow> ValidationMetrics \<Rightarrow>
   go_panic + (asyncHalvingSearch \<times> search_context \<times> Operation list \<times> go_error option)" where
  "validationCompleted s ctx rid message vm =
     (case ValidationMetrics_Metric vm (Metric (config s)) of
        Inl err \<Rightarrow> Inr (s, ctx, [], Some err)
      | Inr m \<Rightarrow>
          (case promote s ctx rid message (if \<not> SmallerIsBetter (config s) then m * (- 1) else m) of
             Inl p \<Rightarrow> Inl p
           | Inr (s', ctx', ops) \<Rightarrow> Inr (s', ctx', ops, None)))"

definition trialExitedEarly ::
  "asyncHalvingSearch \<Rightarrow> search_context \<Rightarrow> RequestID \<Rightarrow> Workload \<Rightarrow>
   go_panic + (asyncHalvingSearch \<times> search_context \<times> Operation list \<times> go_error option)" where
  "trialExitedEarly s ctx rid message =
     (case promote (s\<lparr>earlyExitTrials := (earlyExitTrials s)(rid \<mapsto> True)\<rparr>) ctx rid message
             ashaExitedMetricValue of
        Inl p \<Rightarrow> Inl p
      | Inr (s', ctx', ops) \<Rightarrow> Inr (s', ctx', ops, None))"

subsection \<open>The calls of the orchestrator\<close>

text \<open>
  The orchestrator builds the searcher, calls \<open>initialOperations\<close> once and then delivers
  events one at a time; the operations of all calls are collected in order. A call that
  returns an error value leaves the run going; a panic ends it.
\<close>

datatype event =
    TrainCompleted RequestID Workload
  | ValidationCompleted RequestID Workload ValidationMetrics
  | TrialExitedEarly RequestID Workload

fun event_id :: "event \<Rightarrow> RequestID" where
  "event_id (TrainCompleted rid message) = rid"
| "event_id (ValidationCompleted rid message vm) = rid"
| "event_id (TrialExitedEarly rid message) = rid"

fun deliver ::
  "asyncHalvingSearch \<Rightarrow> search_context \<Rightarrow> event \<Rightarrow>
   go_panic + (asyncHalvingSearch \<times> search_context \<times> Operation list \<times> go_error option)" where
  "deliver s ctx (TrainCompleted rid message) = trainCompleted s ctx rid message"
| "deliver s ctx (ValidationCompleted rid message vm) = validationCompleted s ctx rid message vm"
| "deliver s ctx (TrialExitedEarly rid message) = trialExitedEarly s ctx rid message"

fun run_events ::
  "asyncHalvingSearch \<Rightarrow> search_context \<Rightarrow> event list \<Rightarrow>
   go_panic + (asyncHalvingSearch \<times> search_context \<times> Operation list)" where
  "run_events s ctx [] = Inr (s, ctx, [])"
| "run_events s ctx (ev # evs) =
     (case deliver s ctx ev of
        Inl p \<Rightarrow> Inl p
      | Inr (s', ctx', ops, err) \<Rightarrow>
          (case run_events s' ctx' evs of
             Inl p \<Rightarrow> Inl p
           | Inr (s'', ctx'', ops') \<Rightarrow> Inr (s'', ctx'', ops @ ops')))"

definition run ::
  "AsyncHalvingConfig \<Rightarrow> search_context \<Rightarrow> event list \<Rightarrow>
   go_panic + (asyncHalvingSearch \<times> search_context \<times> Operation list)" where
  "run cfg ctx evs =
     (case newAsyncHalvingSearch cfg of
        Inl p \<Rightarrow> Inl p
      | Inr s0 \<Rightarrow>
          (case initialOperations s0 ctx of
             Inl p \<Rightarrow> Inl p
           | Inr (s1, ctx1, ops, err) \<Rightarrow>
               (case run_events s1 ctx1 evs of
                  Inl p \<Rightarrow> Inl p
                | Inr (s2, ctx2, ops') \<Rightarrow> Inr (s2, ctx2, ops @ ops'))))"

text \<open>
  An event stream all of whose events name a trial the searcher has registered at the time
  they are delivered.
\<close>

fun known_events :: "asyncHalvingSearch \<Rightarrow> search_context \<Rightarrow> event list \<Rightarrow> bool" where
  "known_events s ctx [] = True"
| "known_events s ctx (ev # evs) =
     (event_id ev \<in> fst ` set (trialRungs s) \<and>
      (case deliver s ctx ev of
         Inl p \<Rightarrow> False
       | Inr (s', ctx', ops, err) \<Rightarrow> known_events s' ctx' evs))"

definition known_run :: "AsyncHalvingConfig \<Rightarrow> search_context \<Rightarrow> event list \<Rightarrow> bool" where
  "known_run cfg ctx evs =
     (case newAsyncHalvingSearch cfg of
        Inl p \<Rightarrow> False
      | Inr s0 \<Rightarrow>
          (case initialOperations s0 ctx of
             Inl p \<Rightarrow> False
           | Inr (s1, ctx1, ops, err) \<Rightarrow> known_events s1 ctx1 evs))"

text \<open>The trials a list of operations creates, in order.\<close>

fun created :: "Operation list \<Rightarrow> RequestID list" where
  "created [] = []"
| "created (Create rid # ops) = rid # created ops"
| "created (Train rid a b # ops) = created ops"
| "created (Validate rid a # ops) = created ops"
| "created (Close rid # ops) = created ops"

text \<open>The trials a list of operations trains, and the trials it closes, in order.\<close>

fun trained :: "Operation list \<Rightarrow> RequestID list" where
  "trained [] = []"
| "trained (Create rid # ops) = trained ops"
| "trained (Train rid a b # ops) = rid # trained ops"
| "trained (Validate rid a # ops) = trained ops"
| "trained (Close rid # ops) = trained ops"

fun closes :: "Operation list \<Rightarrow> RequestID list" where
  "closes [] = []"
| "closes (Create rid # ops) = closes ops"
| "closes (Train rid a b # ops) = closes ops"
| "closes (Validate rid a # ops) = closes ops"
| "closes (Close rid # ops) = rid # closes ops"

text \<open>The trials ranked on a rung with their metrics, in the order of the rung.\<close>

definition entries :: "rung \<Rightarrow> (RequestID \<times> float64) list" where
  "entries r = map (\<lambda>t. (requestID t, metric t)) (metrics r)"

text \<open>The configurations the spec calls valid.\<close>

definition valid_config :: "AsyncHalvingConfig \<Rightarrow> bool" where
  "valid_config cfg =
     (2 \<le> Divisor cfg \<and> 1 \<le> NumRungs cfg \<and> 1 \<le> TargetTrialSteps cfg \<and> 1 \<le> MaxTrials cfg)"

subsection \<open>Invariants of a rung\<close>

text \<open>
  The best \<open>floor (len(metrics) / divisor)\<close> entries of a rung, the first ones of its
  sorted metrics, are all promoted.
\<close>

definition top_promoted :: "float64 \<Rightarrow> rung \<Rightarrow> bool" where
  "top_promoted d r =
     list_all promoted (take (nat \<lfloor>of_nat (length (metrics r)) / d\<rfloor>) (metrics r))"

definition rung_ok :: "float64 \<Rightarrow> rung \<Rightarrow> bool" where
  "rung_ok d r = (sorted (map metric (metrics r)) \<and> top_promoted d r)"

subsection \<open>Invariant of the searcher\<close>

text \<open>
  The rungs are the ones of the configuration, every trial is on one of them, and every
  rung is sorted with its best entries promoted.
\<close>

definition search_ok :: "asyncHalvingSearch \<Rightarrow> bool" where
  "search_ok s =
     (1 \<le> Divisor (config s) \<and> 1 \<le> NumRungs (config s) \<and>
      length (rungs s) = nat (NumRungs (config s)) \<and>
      (\<forall>rid. 0 \<le> trialRungs_lookup s rid \<and> trialRungs_lookup s rid < NumRungs (config s)) \<and>
      (\<forall>k<length (rungs s). rung_ok (Divisor (config s)) (rungs s ! k)))"

text \<open>
  Every trial with an entry in a rung is registered, and no more trials are registered
  than the searcher may have.
\<close>

definition cap_ok :: "asyncHalvingSearch \<Rightarrow> bool" where
  "cap_ok s =
     ((\<forall>r\<in>set (rungs s). \<forall>t\<in>set (metrics r). requestID t \<in> fst ` set (trialRungs s)) \<and>
      int (length (trialRungs s)) \<le> maxTrials s)"

text \<open>What no call changes.\<close>

definition same_frame :: "asyncHalvingSearch \<Rightarrow> asyncHalvingSearch \<Rightarrow> bool" where
  "same_frame s s' =
     (config s' = config s \<and> maxTrials s' = maxTrials s \<and>
      earlyExitTrials s' = earlyExitTrials s \<and>
      map stepsNeeded (rungs s') = map stepsNeeded (rungs s))"

subsection \<open>Concrete inputs\<close>

definition example_config :: AsyncHalvingConfig where
  "example_config =
     \<lparr>Metric = ''loss'', SmallerIsBetter = True, TargetTrialSteps = 4, MaxTrials = 3,
      Divisor = 2, NumRungs = 2, MaxConcurrentTrials = 3\<rparr>"

definition example_context :: search_context where
  "example_context = \<lparr>rand = 0\<rparr>"

definition example_message :: Workload where
  "example_message = \<lparr>Kind = ComputeValidationMetrics, ExperimentID = 1, TrialID = 1, StepID = 1\<rparr>"

definition loss :: "float64 \<Rightarrow> ValidationMetrics" where
  "loss v = [''loss'' \<mapsto> v]"

definition example_search :: asyncHalvingSearch where
  "example_search =
     \<lparr>config = example_config,
      rungs = [\<lparr>stepsNeeded = 2, outstandingTrials = 0, metrics = []\<rparr>,
               \<lparr>stepsNeeded = 4, outstandingTrials = 0, metrics = []\<rparr>],
      trialRungs = [], earlyExitTrials = Map.empty, maxTrials = 3, trialsCompleted = 0\<rparr>"



definition single_config :: AsyncHalvingConfig where
  "single_config =
     \<lparr>Metric = ''loss'', SmallerIsBetter = True, TargetTrialSteps = 4, MaxTrials = 1,
      Divisor = 2, NumRungs = 2, MaxConcurrentTrials = 1\<rparr>"




section \<open>Lemmas\<close>

subsection \<open>Binary search and the promotion counts\<close>

lemma Search_loop_spec:
  assumes "\<forall>a b. a \<le> b \<and> b < n \<and> f a \<longrightarrow> f b"
    and "i \<le> j" "j \<le> n"
    and "\<forall>k<i. \<not> f k" "\<forall>k. j \<le> k \<and> k < n \<longrightarrow> f k"
  shows "i \<le> Search_loop f i j \<and> Search_loop f i j \<le> j \<and>
         (\<forall>k<Search_loop f i j. \<not> f k) \<and>
         (\<forall>k. Search_loop f i j \<le> k \<and> k < n \<longrightarrow> f k)"
  using assms
proof (induction f i j rule: Search_loop.induct)
  case (1 f i j)
  note mono = "1.prems"(1)
  show ?case
  proof (cases "i < j")
    case False
    then have "Search_loop f i j = i"
      by (subst Search_loop.simps) simp
    with "1.prems" False show ?thesis
      by simp
  next
    case lt: True
    define h where "h = (i + j) div 2"
    have h: "i \<le> h" "h < j" using lt by (simp_all add: h_def)
    show ?thesis
    proof (cases "f h")
      case False
      have below: "\<forall>k<h + 1. \<not> f k"
      proof (intro allI impI)
        fix k assume "k < h + 1"
        then have "k \<le> h" by simp
        with mono h "1.prems"(3) False show "\<not> f k"
          by (meson less_le_trans)
      qed
      have eq: "Search_loop f i j = Search_loop f (h + 1) j"
        using lt False by (subst Search_loop.simps) (simp add: h_def Let_def)
      from "1.IH"(1) [OF lt h_def False mono _ "1.prems"(3) below "1.prems"(5)] h
      show ?thesis unfolding eq by auto
    next
      case True
      have above: "\<forall>k. h \<le> k \<and> k < n \<longrightarrow> f k"
        using mono True by blast
      have eq: "Search_loop f i j = Search_loop f i h"
        using lt True by (subst Search_loop.simps) (simp add: h_def Let_def)
      from "1.IH"(2) [OF lt h_def _ mono h(1) _ "1.prems"(4) above] True h "1.prems"(3)
      show ?thesis unfolding eq by auto
    qed
  qed
qed

lemma Search_sorted:
  assumes "sorted (map metric xs)"
  shows "Search (length xs) (\<lambda>k. metric (xs ! k) > m) \<le> length xs \<and>
         (\<forall>k<Search (length xs) (\<lambda>k. metric (xs ! k) > m). metric (xs ! k) \<le> m) \<and>
         (\<forall>k. Search (length xs) (\<lambda>k. metric (xs ! k) > m) \<le> k \<and> k < length xs
              \<longrightarrow> m < metric (xs ! k))"
proof -
  have mono: "\<And>a b. a \<le> b \<Longrightarrow> b < length xs \<Longrightarrow> m < metric (xs ! a) \<Longrightarrow> m < metric (xs ! b)"
  proof -
    fix a b assume ab: "a \<le> b" "b < length xs" "m < metric (xs ! a)"
    from assms ab have "map metric xs ! a \<le> map metric xs ! b"
      by (intro sorted_nth_mono) simp_all
    with ab show "m < metric (xs ! b)" by simp
  qed
  then have "\<forall>a b. a \<le> b \<and> b < length xs \<and> m < metric (xs ! a) \<longrightarrow> m < metric (xs ! b)"
    by blast
  from Search_loop_spec [of "length xs" "\<lambda>k. metric (xs ! k) > m" 0 "length xs", OF this]
  show ?thesis
    by (simp add: Search_def not_less)
qed

lemma go_int_div:
  "1 \<le> d \<Longrightarrow> go_int (float_div (Some (of_nat n)) (Some d)) = Inr \<lfloor>of_nat n / d\<rfloor>"
  by (simp add: go_int_def float_div_def)

lemma floor_div_bounds:
  fixes d :: rat
  assumes "1 \<le> d"
  shows "0 \<le> \<lfloor>of_nat n / d\<rfloor>" and "\<lfloor>of_nat n / d\<rfloor> \<le> int n"
    and "\<lfloor>of_nat n / d\<rfloor> \<le> \<lfloor>of_nat (n + 1) / d\<rfloor>"
    and "\<lfloor>of_nat (n + 1) / d\<rfloor> \<le> \<lfloor>of_nat n / d\<rfloor> + 1"
proof -
  have pos: "0 < d" using assms by simp
  show "0 \<le> \<lfloor>of_nat n / d\<rfloor>" using pos by simp
  have "of_nat n / d \<le> (of_nat n :: rat)"
    using assms by (simp add: divide_le_eq mult_le_cancel_left1)
  then have "\<lfloor>of_nat n / d\<rfloor> \<le> \<lfloor>(of_nat n :: rat)\<rfloor>" by (rule floor_mono)
  then show "\<lfloor>of_nat n / d\<rfloor> \<le> int n" by simp
  have "of_nat n / d \<le> of_nat (n + 1) / d"
    using pos by (simp add: divide_le_cancel)
  then show "\<lfloor>of_nat n / d\<rfloor> \<le> \<lfloor>of_nat (n + 1) / d\<rfloor>" by (rule floor_mono)
  have "of_nat (n + 1) / d = of_nat n / d + 1 / d"
    by (simp add: add_divide_distrib)
  moreover have "1 / d \<le> 1" using assms by simp
  ultimately have "of_nat (n + 1) / d \<le> of_nat n / d + 1" by simp
  then have "\<lfloor>of_nat (n + 1) / d\<rfloor> \<le> \<lfloor>of_nat n / d + 1\<rfloor>" by (rule floor_mono)
  then show "\<lfloor>of_nat (n + 1) / d\<rfloor> \<le> \<lfloor>of_nat n / d\<rfloor> + 1" by simp
qed

lemma promotionsAsync_eq:
  assumes d: "1 \<le> d"
  shows "promotionsAsync r rid m d =
     (let old = \<lfloor>of_nat (length (metrics r)) / d\<rfloor>;
          new = \<lfloor>of_nat (length (metrics r) + 1) / d\<rfloor>;
          i = Search (length (metrics r)) (\<lambda>k. metric (metrics r ! k) > m);
          ms = take i (metrics r)
               @ [\<lparr>requestID = rid, metric = m, promoted = (int i < new), closed = False\<rparr>]
               @ drop i (metrics r)
      in Inr (if int i < new then (r\<lparr>metrics := ms\<rparr>, [rid])
              else if old < new \<and> \<not> promoted (ms ! nat old)
              then (r\<lparr>metrics := ms[nat old := (ms ! nat old)\<lparr>promoted := True\<rparr>]\<rparr>,
                    [requestID (ms ! nat old)])
              else (r\<lparr>metrics := ms\<rparr>, [])))"
proof -
  let ?n = "length (metrics r)"
  have old: "0 \<le> \<lfloor>of_nat ?n / d\<rfloor>" "\<lfloor>of_nat ?n / d\<rfloor> \<le> int ?n"
    and step: "\<lfloor>of_nat ?n / d\<rfloor> \<le> \<lfloor>of_nat (?n + 1) / d\<rfloor>"
    using floor_div_bounds [OF d, of ?n] by simp_all
  have inrange: "nat \<lfloor>of_nat ?n / d\<rfloor> < Suc ?n"
    using old by linarith
  have neq: "(\<lfloor>of_nat (?n + 1) / d\<rfloor> \<noteq> \<lfloor>of_nat ?n / d\<rfloor>) = (\<lfloor>of_nat ?n / d\<rfloor> < \<lfloor>of_nat (?n + 1) / d\<rfloor>)"
    using step by linarith
  have len: "\<And>i e. length (take i (metrics r) @ [e] @ drop i (metrics r)) = Suc ?n"
    by (simp add: min_def)
  show ?thesis
    unfolding promotionsAsync_def go_int_div [OF d] Let_def len
    using old inrange neq by (simp del: of_nat_add of_nat_Suc length_append add: len)
qed


lemma nth_insert_at:
  assumes "i \<le> length xs"
  shows "k < i \<Longrightarrow> (take i xs @ [e] @ drop i xs) ! k = xs ! k"
    and "(take i xs @ [e] @ drop i xs) ! i = e"
    and "i < k \<Longrightarrow> k \<le> length xs \<Longrightarrow> (take i xs @ [e] @ drop i xs) ! k = xs ! (k - 1)"
proof -
  have len: "length (take i xs) = i" using assms by simp
  show "k < i \<Longrightarrow> (take i xs @ [e] @ drop i xs) ! k = xs ! k"
    using len by (simp add: nth_append)
  show "(take i xs @ [e] @ drop i xs) ! i = e"
    using len by (simp add: nth_append)
  show "(take i xs @ [e] @ drop i xs) ! k = xs ! (k - 1)" if "i < k" "k \<le> length xs"
  proof -
    from that obtain j where k: "k = Suc (i + j)" and j: "i + j < length xs"
      by (metis Suc_le_eq less_iff_Suc_add add_Suc_right)
    then show ?thesis using len assms
      by (simp add: nth_append)
  qed
qed

lemma map_metric_promote:
  "map metric (ms[k := (ms ! k)\<lparr>promoted := True\<rparr>]) = map metric ms"
proof (cases "k < length ms")
  case True
  then have "(map metric ms)[k := metric (ms ! k)] = (map metric ms)[k := map metric ms ! k]"
    by simp
  then show ?thesis
    by (simp add: map_update del: nth_map)
next
  case False
  then show ?thesis by (simp add: list_update_beyond)
qed

lemma sorted_insert_at:
  assumes "sorted (map metric xs)" "i \<le> length xs"
    and "\<forall>k<i. metric (xs ! k) \<le> metric e"
    and "\<forall>k. i \<le> k \<and> k < length xs \<longrightarrow> metric e < metric (xs ! k)"
  shows "sorted (map metric (take i xs @ [e] @ drop i xs))"
proof -
  have "sorted (map metric (take i xs))" "sorted (map metric (drop i xs))"
    using assms(1) by (simp_all add: take_map [symmetric] drop_map [symmetric])
  moreover have "\<forall>x\<in>set (take i xs). metric x \<le> metric e"
    using assms(2,3) by (auto simp: in_set_conv_nth)
  moreover have "\<forall>y\<in>set (drop i xs). metric e \<le> metric y"
    using assms(2,4) by (auto simp: in_set_conv_nth less_imp_le)
  moreover have "\<forall>x\<in>set (take i xs). \<forall>y\<in>set (drop i xs). metric x \<le> metric y"
    using calculation(3,4) by (meson order_trans)
  ultimately show ?thesis
    by (auto simp: sorted_append)
qed

lemma top_promoted_iff:
  assumes "1 \<le> d"
  shows "top_promoted d r \<longleftrightarrow>
         (\<forall>k. int k < \<lfloor>of_nat (length (metrics r)) / d\<rfloor> \<longrightarrow> promoted (metrics r ! k))"
proof -
  let ?p = "\<lfloor>of_nat (length (metrics r)) / d\<rfloor>"
  have p: "0 \<le> ?p" "?p \<le> int (length (metrics r))"
    using floor_div_bounds [OF assms, of "length (metrics r)"] by simp_all
  then have len: "length (take (nat ?p) (metrics r)) = nat ?p"
    by simp
  have "top_promoted d r \<longleftrightarrow> (\<forall>k<nat ?p. promoted (metrics r ! k))"
    unfolding top_promoted_def list_all_length len by simp
  also have "\<dots> \<longleftrightarrow> (\<forall>k. int k < ?p \<longrightarrow> promoted (metrics r ! k))"
    using p by (metis nat_less_iff zless_nat_eq_int_zless)
  finally show ?thesis .
qed

lemma promotionsAsync_rung_ok:
  assumes d: "1 \<le> d" and ok: "rung_ok d r"
    and call: "promotionsAsync r rid m d = Inr (r', ps)"
  shows "rung_ok d r'"
    and "length (metrics r') = Suc (length (metrics r))"
    and "stepsNeeded r' = stepsNeeded r"
    and "outstandingTrials r' = outstandingTrials r"
proof -
  let ?xs = "metrics r"
  let ?n = "length ?xs"
  define old where "old = \<lfloor>of_nat ?n / d\<rfloor>"
  define new where "new = \<lfloor>of_nat (?n + 1) / d\<rfloor>"
  define i where "i = Search ?n (\<lambda>k. metric (?xs ! k) > m)"
  define e where "e = \<lparr>requestID = rid, metric = m, promoted = (int i < new), closed = False\<rparr>"
  define ms where "ms = take i ?xs @ [e] @ drop i ?xs"
  have sorted_xs: "sorted (map metric ?xs)" and top_xs: "top_promoted d r"
    using ok by (simp_all add: rung_ok_def)
  have i: "i \<le> ?n" "\<forall>k<i. metric (?xs ! k) \<le> m"
    "\<forall>k. i \<le> k \<and> k < ?n \<longrightarrow> m < metric (?xs ! k)"
    using Search_sorted [OF sorted_xs, of m] by (simp_all add: i_def)
  have bounds: "0 \<le> old" "old \<le> int ?n" "old \<le> new" "new \<le> old + 1"
    using floor_div_bounds [OF d, of ?n] by (simp_all add: old_def new_def)
  have len_ms: "length ms = Suc ?n"
    using i(1) by (simp add: ms_def)
  have res: "(r', ps) =
      (if int i < new then (r\<lparr>metrics := ms\<rparr>, [rid])
       else if old < new \<and> \<not> promoted (ms ! nat old)
       then (r\<lparr>metrics := ms[nat old := (ms ! nat old)\<lparr>promoted := True\<rparr>]\<rparr>,
             [requestID (ms ! nat old)])
       else (r\<lparr>metrics := ms\<rparr>, []))"
    using call unfolding promotionsAsync_eq [OF d] Let_def old_def new_def i_def e_def ms_def
    by simp
  have cases: "metrics r' = ms \<or> metrics r' = ms[nat old := (ms ! nat old)\<lparr>promoted := True\<rparr>]"
    using res by (auto split: if_splits)
  show "stepsNeeded r' = stepsNeeded r" "outstandingTrials r' = outstandingTrials r"
    using res by (auto split: if_splits)
  show len: "length (metrics r') = Suc ?n"
    using cases len_ms by auto
  have "sorted (map metric ms)"
    unfolding ms_def using sorted_insert_at [OF sorted_xs i(1), of e] i(2,3)
    by (simp add: e_def)
  then have sorted': "sorted (map metric (metrics r'))"
    using cases by (auto simp: map_metric_promote)
  have old_top: "\<And>k. int k < old \<Longrightarrow> promoted (?xs ! k)"
    using top_xs unfolding top_promoted_iff [OF d] old_def by simp
  have top': "promoted (metrics r' ! k)" if k: "int k < new" for k
  proof (cases "int i < new")
    case True
    then have r': "metrics r' = ms" using res by simp
    have e_prom: "promoted e" using True by (simp add: e_def)
    consider "k < i" | "k = i" | "i < k" by linarith
    then show ?thesis
    proof cases
      case 1
      then have "ms ! k = ?xs ! k" unfolding ms_def using nth_insert_at(1) [OF i(1)] by simp
      moreover have "int k < old" using 1 True bounds by linarith
      ultimately show ?thesis using old_top r' by simp
    next
      case 2
      then have "ms ! k = e" unfolding ms_def using nth_insert_at(2) [OF i(1)] by simp
      then show ?thesis using e_prom r' by simp
    next
      case 3
      have "k \<le> ?n" using k bounds by linarith
      with 3 have "ms ! k = ?xs ! (k - 1)" unfolding ms_def using nth_insert_at(3) [OF i(1)] by simp
      moreover have "int (k - 1) < old" using 3 k bounds by linarith
      ultimately show ?thesis using old_top r' by simp
    qed
  next
    case False
    then have ki: "k < i" using k by linarith
    then have msk: "ms ! k = ?xs ! k" unfolding ms_def using nth_insert_at(1) [OF i(1)] by simp
    have klen: "k < length ms" using ki i(1) len_ms by linarith
    show ?thesis
    proof (cases "int k < old")
      case True
      then have "promoted (ms ! k)" using msk old_top by simp
      then show ?thesis using cases klen by (cases "k = nat old") auto
    next
      case notold: False
      then have kold: "k = nat old" and grow: "old < new" using k bounds by linarith+
      show ?thesis
      proof (cases "promoted (ms ! nat old)")
        case True
        then have "metrics r' = ms" using res False by simp
        then show ?thesis using True kold by simp
      next
        case unp: False
        then have "metrics r' = ms[nat old := (ms ! nat old)\<lparr>promoted := True\<rparr>]"
          using res False grow by simp
        then show ?thesis using kold klen by simp
      qed
    qed
  qed
  have "top_promoted d r'"
    unfolding top_promoted_iff [OF d] len using top' by (simp add: new_def)
  with sorted' show "rung_ok d r'" by (simp add: rung_ok_def)
qed

lemma floor_rat_numeral_divide [simp]:
  "\<lfloor>numeral a / numeral b :: rat\<rfloor> = numeral a div numeral b"
  by (metis floor_divide_of_int_eq of_int_numeral)

lemma floor_rat_one_divide [simp]:
  "\<lfloor>1 / numeral b :: rat\<rfloor> = 1 div numeral b"
  by (metis floor_divide_of_int_eq of_int_1 of_int_numeral)

subsection \<open>The invariant is kept\<close>

lemma rung_ok_cong:
  "map metric (metrics r') = map metric (metrics r) \<Longrightarrow>
   map promoted (metrics r') = map promoted (metrics r) \<Longrightarrow> rung_ok d r' = rung_ok d r"
proof -
  assume m: "map metric (metrics r') = map metric (metrics r)"
    and p: "map promoted (metrics r') = map promoted (metrics r)"
  from m have len: "length (metrics r') = length (metrics r)"
    by (metis length_map)
  have "list_all promoted (take n (metrics r')) = list_all promoted (take n (metrics r))" for n
  proof -
    have "list_all promoted (take n xs) = list_all (\<lambda>b. b) (take n (map promoted xs))" for xs
      by (simp add: take_map list_all_iff)
    from this [of "metrics r'"] this [of "metrics r"] p show ?thesis by simp
  qed
  then show ?thesis
    by (simp add: rung_ok_def top_promoted_def m len)
qed

lemma rung_ok_outstanding [simp]:
  "rung_ok d (r\<lparr>outstandingTrials := n\<rparr>) = rung_ok d r"
  by (simp add: rung_ok_def top_promoted_def)

lemma closeOutMetrics_maps:
  "closeOutMetrics ee ts = (ts', c, ops) \<Longrightarrow>
   map metric ts' = map metric ts \<and> map promoted ts' = map promoted ts \<and>
   map requestID ts' = map requestID ts"
  by (induction ts arbitrary: ts' c ops) (auto split: prod.splits if_splits)

lemma closeOutRungs_loop_ok:
  "closeOutRungs_loop ee rs = (rs', c, ops) \<Longrightarrow>
   length rs' = length rs \<and> (\<forall>k<length rs. rung_ok d (rs' ! k) = rung_ok d (rs ! k))"
proof (induction rs arbitrary: rs' c ops)
  case Nil
  then show ?case by simp
next
  case (Cons r rs)
  show ?case
  proof (cases "outstandingTrials r > 0")
    case True
    with Cons.prems show ?thesis by simp
  next
    case False
    obtain ms c1 ops1 where m: "closeOutMetrics ee (metrics r) = (ms, c1, ops1)"
      by (cases "closeOutMetrics ee (metrics r)") auto
    obtain rs2 c2 ops2 where l: "closeOutRungs_loop ee rs = (rs2, c2, ops2)"
      by (cases "closeOutRungs_loop ee rs") auto
    from Cons.prems False m l have rs': "rs' = r\<lparr>metrics := ms\<rparr> # rs2"
      by simp
    have "rung_ok d (r\<lparr>metrics := ms\<rparr>) = rung_ok d r"
      using closeOutMetrics_maps [OF m] by (intro rung_ok_cong) simp_all
    with Cons.IH [OF l] rs' show ?thesis
      by (auto simp: nth_Cons')
  qed
qed

lemma closeOutRungs_ok:
  assumes "search_ok s" "closeOutRungs s = (s', ops)"
  shows "search_ok s'"
proof -
  obtain rs c cl where l: "closeOutRungs_loop (earlyExitTrials s) (rungs s) = (rs, c, cl)"
    by (cases "closeOutRungs_loop (earlyExitTrials s) (rungs s)") auto
  with assms(2) have s': "s' = s\<lparr>rungs := rs, trialsCompleted := trialsCompleted s + c\<rparr>"
    by (simp add: closeOutRungs_def)
  from closeOutRungs_loop_ok [OF l, of "Divisor (config s)"] assms(1)
  have "\<forall>k<length rs. rung_ok (Divisor (config s)) (rs ! k)" "length rs = length (rungs s)"
    by (auto simp: search_ok_def)
  with assms(1) show ?thesis
    by (simp add: s' search_ok_def trialRungs_lookup_def)
qed

lemma trialRungs_lookup_update:
  "trialRungs_lookup (s\<lparr>trialRungs := AList.update k v (trialRungs s)\<rparr>) rid =
     (if rid = k then v else trialRungs_lookup s rid)"
  by (simp add: trialRungs_lookup_def update_conv')

lemma create_trial_ok:
  assumes "search_ok s"
  shows "\<exists>s' ctx' ops. create_trial s ctx = Inr (s', ctx', ops) \<and> search_ok s'"
proof -
  from assms obtain r0 rs where rs: "rungs s = r0 # rs"
    by (cases "rungs s") (auto simp: search_ok_def)
  have "search_ok (s\<lparr>rungs := r0\<lparr>outstandingTrials := outstandingTrials r0 + 1\<rparr> # rs,
          trialRungs := AList.update (rand ctx) 0 (trialRungs s)\<rparr>)"
    using assms rs by (auto simp: search_ok_def trialRungs_lookup_def update_conv' nth_Cons')
  then show ?thesis
    by (simp add: create_trial_def NewCreate_def rs)
qed

subsection \<open>Induction over the calls of promote that return\<close>

lemma promote_result_induct [consumes 1, case_names top finish recurse]:
  assumes call: "promote s ctx rid message m = Inr (s', ctx', ops)"
    and top: "\<And>s ctx rid message m s' ctx' ops k s1.
       \<lbrakk>0 \<le> trialRungs_lookup s rid; k = nat (trialRungs_lookup s rid); k < length (rungs s);
        s1 = s\<lparr>rungs := (rungs s)[k := (rungs s ! k)
                 \<lparr>outstandingTrials := outstandingTrials (rungs s ! k) - 1\<rparr>]\<rparr>;
        int k = NumRungs (config s) - 1;
        promote_finish (s1\<lparr>trialsCompleted := trialsCompleted s1 + 1\<rparr>) ctx
          (if earlyExitTrials s rid \<noteq> Some True then [Close rid] else []) False
        = Inr (s', ctx', ops)\<rbrakk>
       \<Longrightarrow> P s ctx rid message m s' ctx' ops"
    and finish: "\<And>s ctx rid message m s' ctx' ops k s1 r' ids s2 ops2 added.
       \<lbrakk>0 \<le> trialRungs_lookup s rid; k = nat (trialRungs_lookup s rid); k < length (rungs s);
        s1 = s\<lparr>rungs := (rungs s)[k := (rungs s ! k)
                 \<lparr>outstandingTrials := outstandingTrials (rungs s ! k) - 1\<rparr>]\<rparr>;
        int k \<noteq> NumRungs (config s) - 1; k + 1 < length (rungs s);
        promotionsAsync (rungs s1 ! k) rid m (Divisor (config s)) = Inr (r', ids);
        promotions_loop (s1\<lparr>rungs := (rungs s1)[k := r']\<rparr>) message k ids [] False
        = Inr (Done s2 ops2 added);
        promote_finish s2 ctx ops2 added = Inr (s', ctx', ops)\<rbrakk>
       \<Longrightarrow> P s ctx rid message m s' ctx' ops"
    and recurse: "\<And>s ctx rid message m s' ctx' ops k s1 r' ids s2 pid wkld.
       \<lbrakk>0 \<le> trialRungs_lookup s rid; k = nat (trialRungs_lookup s rid); k < length (rungs s);
        s1 = s\<lparr>rungs := (rungs s)[k := (rungs s ! k)
                 \<lparr>outstandingTrials := outstandingTrials (rungs s ! k) - 1\<rparr>]\<rparr>;
        int k \<noteq> NumRungs (config s) - 1; k + 1 < length (rungs s);
        promotionsAsync (rungs s1 ! k) rid m (Divisor (config s)) = Inr (r', ids);
        promotions_loop (s1\<lparr>rungs := (rungs s1)[k := r']\<rparr>) message k ids [] False
        = Inr (Recurse s2 pid wkld);
        promote s2 ctx pid wkld ashaExitedMetricValue = Inr (s', ctx', ops);
        P s2 ctx pid wkld ashaExitedMetricValue s' ctx' ops\<rbrakk>
       \<Longrightarrow> P s ctx rid message m s' ctx' ops"
  shows "P s ctx rid message m s' ctx' ops"
  using call
proof (induction s ctx rid message m arbitrary: s' ctx' ops rule: promote.induct)
  case (1 s ctx rid message m)
  define k where "k = nat (trialRungs_lookup s rid)"
  define s1 where "s1 = s\<lparr>rungs := (rungs s)[k := (rungs s ! k)
                 \<lparr>outstandingTrials := outstandingTrials (rungs s ! k) - 1\<rparr>]\<rparr>"
  from "1.prems" have range: "0 \<le> trialRungs_lookup s rid" "k < length (rungs s)"
    by (auto simp: promote.simps [of s ctx rid message m] k_def split: if_splits)
  show ?case
  proof (cases "int k = NumRungs (config s) - 1")
    case True
    with "1.prems" range have
      "promote_finish (s1\<lparr>trialsCompleted := trialsCompleted s1 + 1\<rparr>) ctx
          (if earlyExitTrials s rid \<noteq> Some True then [Close rid] else []) False
        = Inr (s', ctx', ops)"
      by (simp add: promote.simps [of s ctx rid message m] k_def [symmetric] s1_def [symmetric] Let_def)
    from top [OF range(1) k_def range(2) s1_def True this] show ?thesis .
  next
    case False
    from "1.prems" range False have k1: "k + 1 < length (rungs s)"
      by (auto simp: promote.simps [of s ctx rid message m] k_def [symmetric] Let_def split: if_splits)
    from "1.prems" range False k1 obtain r' ids where
      pa: "promotionsAsync (rungs s1 ! k) rid m (Divisor (config s)) = Inr (r', ids)"
      by (cases "promotionsAsync (rungs s1 ! k) rid m (Divisor (config s))")
         (auto simp: promote.simps [of s ctx rid message m] k_def [symmetric] s1_def [symmetric] Let_def)
    from "1.prems" range False k1 pa obtain res where
      loop: "promotions_loop (s1\<lparr>rungs := (rungs s1)[k := r']\<rparr>) message k ids [] False = Inr res"
      by (cases "promotions_loop (s1\<lparr>rungs := (rungs s1)[k := r']\<rparr>) message k ids [] False")
         (auto simp: promote.simps [of s ctx rid message m] k_def [symmetric] s1_def [symmetric] Let_def)
    show ?thesis
    proof (cases res)
      case (Done s2 ops2 added)
      with "1.prems" range False k1 pa loop have
        "promote_finish s2 ctx ops2 added = Inr (s', ctx', ops)"
        by (simp add: promote.simps [of s ctx rid message m] k_def [symmetric] s1_def [symmetric] Let_def)
      from finish [OF range(1) k_def range(2) s1_def False k1 pa loop [unfolded Done] this]
      show ?thesis .
    next
      case (Recurse s2 pid wkld)
      with "1.prems" range False k1 pa loop have
        rec: "promote s2 ctx pid wkld ashaExitedMetricValue = Inr (s', ctx', ops)"
        by (simp add: promote.simps [of s ctx rid message m] k_def [symmetric] s1_def [symmetric] Let_def)
      have neg: "\<not> \<not> (0 \<le> trialRungs_lookup s rid \<and> nat (trialRungs_lookup s rid) < length (rungs s))"
        using range by (simp add: k_def)
      have "P s2 ctx pid wkld ashaExitedMetricValue s' ctx' ops"
      proof (rule "1.IH" [OF neg k_def refl _ _ _ _ refl _ refl rec])
        show "s1 = s\<lparr>rungs := (rungs s)[k := (rungs s ! k)
                 \<lparr>outstandingTrials := outstandingTrials (rungs s ! k) - 1\<rparr>]\<rparr>"
          by (fact s1_def)
        show "int k \<noteq> NumRungs (config s) - 1" by (fact False)
        show "\<not> \<not> k + 1 < length (rungs s)" using k1 by simp
        show "promotionsAsync (rungs s1 ! k) rid m (Divisor (config s)) = Inr (r', ids)"
          by (fact pa)
        show "promotions_loop (s1\<lparr>rungs := (rungs s1)[k := r']\<rparr>) message k ids [] False
              = Inr (Recurse s2 pid wkld)"
          using loop Recurse by simp
      qed
      from recurse [OF range(1) k_def range(2) s1_def False k1 pa loop [unfolded Recurse] rec this]
      show ?thesis .
    qed
  qed
qed

lemma nth_list_update_if:
  "j < length xs \<Longrightarrow> xs[i := x] ! j = (if i = j then x else xs ! j)"
  by (cases "i = j") simp_all

lemma search_ok_outstanding:
  assumes "search_ok s"
  shows "search_ok (s\<lparr>rungs := (rungs s)[k := (rungs s ! k)\<lparr>outstandingTrials := n\<rparr>]\<rparr>)"
  using assms
  by (auto simp: search_ok_def trialRungs_lookup_def nth_list_update_if)

lemma search_ok_trialsCompleted [simp]:
  "search_ok (s\<lparr>trialsCompleted := n\<rparr>) = search_ok s"
  by (simp add: search_ok_def trialRungs_lookup_def)

lemma search_ok_register:
  assumes "search_ok s" "int k + 1 < NumRungs (config s)"
  shows "search_ok (s\<lparr>trialRungs := AList.update pid (int k + 1) (trialRungs s),
                     rungs := (rungs s)[j := (rungs s ! j)\<lparr>outstandingTrials := n\<rparr>]\<rparr>)"
  using assms
  by (auto simp: search_ok_def trialRungs_lookup_def nth_list_update_if update_conv')

lemma promotions_loop_ok:
  assumes "search_ok s" "k + 1 < length (rungs s)"
  shows "\<exists>res. promotions_loop s message k ids ops added = Inr res \<and>
           (case res of Done s' ops' added' \<Rightarrow> search_ok s'
            | Recurse s' pid wkld \<Rightarrow> search_ok s')"
  using assms
proof (induction ids arbitrary: s ops added)
  case Nil
  then show ?case by simp
next
  case (Cons pid ids)
  let ?s' = "s\<lparr>trialRungs := AList.update pid (int k + 1) (trialRungs s),
                rungs := (rungs s)[k + 1 := (rungs s ! (k + 1))
                  \<lparr>outstandingTrials := outstandingTrials (rungs s ! (k + 1)) + 1\<rparr>]\<rparr>"
  have "int k + 1 < NumRungs (config s)"
    using Cons.prems by (simp add: search_ok_def)
  then have ok': "search_ok ?s'"
    using Cons.prems(1) by (rule search_ok_register [rotated])
  have len': "k + 1 < length (rungs ?s')"
    using Cons.prems(2) by simp
  show ?case
  proof (cases "earlyExitTrials s pid \<noteq> Some True")
    case True
    from Cons.IH [OF ok' len'] True Cons.prems(2) show ?thesis
      by (simp add: Let_def)
  next
    case False
    with ok' Cons.prems(2) show ?thesis
      by (simp add: Let_def)
  qed
qed

lemma promote_finish_ok:
  assumes "search_ok s"
  shows "\<exists>s' ctx' ops'. promote_finish s ctx ops added = Inr (s', ctx', ops') \<and> search_ok s'"
proof -
  have "\<exists>s1 ctx1 ops1.
    (if \<not> added \<and> int (length (trialRungs s)) < maxTrials s then
              (case create_trial s ctx of
                 Inl p \<Rightarrow> Inl p
               | Inr (s', ctx', cops) \<Rightarrow> Inr (s', ctx', ops @ cops))
            else Inr (s, ctx, ops)) = Inr (s1, ctx1, ops1) \<and> search_ok s1"
  proof (cases "\<not> added \<and> int (length (trialRungs s)) < maxTrials s")
    case True
    from create_trial_ok [OF assms, of ctx] obtain s1 ctx1 cops where
      "create_trial s ctx = Inr (s1, ctx1, cops)" "search_ok s1" by blast
    with True show ?thesis by simp
  next
    case False
    with assms show ?thesis by auto
  qed
  then obtain s1 ctx1 ops1 where
    c: "(if \<not> added \<and> int (length (trialRungs s)) < maxTrials s then
              (case create_trial s ctx of
                 Inl p \<Rightarrow> Inl p
               | Inr (s', ctx', cops) \<Rightarrow> Inr (s', ctx', ops @ cops))
            else Inr (s, ctx, ops)) = Inr (s1, ctx1, ops1)" and ok1: "search_ok s1"
    by blast
  obtain s2 cl where cl: "closeOutRungs s1 = (s2, cl)"
    by (cases "closeOutRungs s1") auto
  from closeOutRungs_ok [OF ok1 cl] have "search_ok s2" .
  with ok1 cl show ?thesis
    unfolding promote_finish_def Let_def c by simp
qed

lemma promotionsAsync_total:
  assumes "1 \<le> d"
  shows "\<exists>r' ids. promotionsAsync r rid m d = Inr (r', ids)"
proof -
  have "\<exists>p. promotionsAsync r rid m d = Inr p"
    unfolding promotionsAsync_eq [OF assms] Let_def by blast
  then show ?thesis by (metis surj_pair)
qed

lemma promote_ok:
  assumes "search_ok s"
  shows "\<exists>s' ctx' ops. promote s ctx rid message m = Inr (s', ctx', ops) \<and> search_ok s'"
  using assms
proof (induction s ctx rid message m rule: promote.induct)
  case (1 s ctx rid message m)
  note ok = "1.prems"
  define k where "k = nat (trialRungs_lookup s rid)"
  define s1 where "s1 = s\<lparr>rungs := (rungs s)[k := (rungs s ! k)
                 \<lparr>outstandingTrials := outstandingTrials (rungs s ! k) - 1\<rparr>]\<rparr>"
  have d: "1 \<le> Divisor (config s)" using ok by (simp add: search_ok_def)
  have range: "0 \<le> trialRungs_lookup s rid" "k < length (rungs s)"
    "int k < NumRungs (config s)"
    using ok by (auto simp: search_ok_def k_def)
  have ok1: "search_ok s1"
    unfolding s1_def using ok by (rule search_ok_outstanding)
  show ?case
  proof (cases "int k = NumRungs (config s) - 1")
    case True
    from promote_finish_ok [of "s1\<lparr>trialsCompleted := trialsCompleted s1 + 1\<rparr>" ctx
           "if earlyExitTrials s rid \<noteq> Some True then [Close rid] else []" False] ok1
    show ?thesis using range True
      by (simp add: promote.simps [of s ctx rid message m] k_def [symmetric] s1_def [symmetric] Let_def)
  next
    case False
    have k1: "k + 1 < length (rungs s)"
      using range False ok by (simp add: search_ok_def)
    have "k < length (rungs s1)" "config s1 = config s"
      using range(2) by (simp_all add: s1_def)
    with ok1 have rk: "rung_ok (Divisor (config s)) (rungs s1 ! k)"
      unfolding search_ok_def by metis
    obtain r' ids where
      pa: "promotionsAsync (rungs s1 ! k) rid m (Divisor (config s)) = Inr (r', ids)"
      using promotionsAsync_total [OF d] by blast
    define s2 where "s2 = s1\<lparr>rungs := (rungs s1)[k := r']\<rparr>"
    have ok2: "search_ok s2"
      using ok1 promotionsAsync_rung_ok(1) [OF d rk pa]
      by (auto simp: search_ok_def s2_def s1_def trialRungs_lookup_def nth_list_update_if)
    have len2: "k + 1 < length (rungs s2)" using k1 by (simp add: s2_def s1_def)
    from promotions_loop_ok [OF ok2 len2, of message ids "[]" False] obtain res where
      loop: "promotions_loop s2 message k ids [] False = Inr res"
      and res: "case res of Done s' ops' added' \<Rightarrow> search_ok s' | Recurse s' pid wkld \<Rightarrow> search_ok s'"
      by blast
    show ?thesis
    proof (cases res)
      case (Done s3 ops3 added)
      with res have "search_ok s3" by simp
      from promote_finish_ok [OF this, of ctx ops3 added] show ?thesis
        using range False k1 pa loop Done
        by (simp add: promote.simps [of s ctx rid message m] k_def [symmetric] s1_def [symmetric]
              s2_def [symmetric] Let_def)
    next
      case (Recurse s3 pid wkld)
      with res have ok3: "search_ok s3" by simp
      have neg: "\<not> \<not> (0 \<le> trialRungs_lookup s rid \<and> nat (trialRungs_lookup s rid) < length (rungs s))"
        using range by (simp add: k_def)
      have "\<exists>s' ctx' ops. promote s3 ctx pid wkld ashaExitedMetricValue = Inr (s', ctx', ops)
              \<and> search_ok s'"
      proof (rule "1.IH" [OF neg k_def refl _ _ _ _ refl _ refl ok3])
        show "s1 = s\<lparr>rungs := (rungs s)[k := (rungs s ! k)
                 \<lparr>outstandingTrials := outstandingTrials (rungs s ! k) - 1\<rparr>]\<rparr>"
          by (fact s1_def)
        show "int k \<noteq> NumRungs (config s) - 1" by (fact False)
        show "\<not> \<not> k + 1 < length (rungs s)" using k1 by simp
        show "promotionsAsync (rungs s1 ! k) rid m (Divisor (config s)) = Inr (r', ids)"
          by (fact pa)
        show "promotions_loop (s1\<lparr>rungs := (rungs s1)[k := r']\<rparr>) message k ids [] False
              = Inr (Recurse s3 pid wkld)"
          using loop Recurse by (simp add: s2_def)
      qed
      then show ?thesis
        using range False k1 pa loop Recurse
        by (simp add: promote.simps [of s ctx rid message m] k_def [symmetric] s1_def [symmetric]
              s2_def [symmetric] Let_def)
    qed
  qed
qed

subsection \<open>What promote leaves alone\<close>

lemma same_frame_refl [simp]: "same_frame s s"
  by (simp add: same_frame_def)

lemma same_frame_trans: "same_frame s s' \<Longrightarrow> same_frame s' s'' \<Longrightarrow> same_frame s s''"
  by (simp add: same_frame_def)

lemma map_stepsNeeded_update:
  "stepsNeeded r = stepsNeeded (rs ! k) \<Longrightarrow> map stepsNeeded (rs[k := r]) = map stepsNeeded rs"
  by (metis list_update_id map_update nth_map list_update_beyond not_le_imp_less length_map)

lemma closeOutRungs_loop_steps:
  "closeOutRungs_loop ee rs = (rs', c, ops) \<Longrightarrow> map stepsNeeded rs' = map stepsNeeded rs"
  by (induction rs arbitrary: rs' c ops) (auto split: if_splits prod.splits)

lemma closeOutRungs_frame:
  "closeOutRungs s = (s', ops) \<Longrightarrow> same_frame s s' \<and> trialRungs s' = trialRungs s"
  by (auto simp: closeOutRungs_def same_frame_def split: prod.splits dest: closeOutRungs_loop_steps)

lemma create_trial_frame:
  "create_trial s ctx = Inr (s', ctx', ops) \<Longrightarrow> same_frame s s'"
  by (auto simp: create_trial_def NewCreate_def same_frame_def split: list.splits)

lemma promotions_loop_frame:
  "promotions_loop s message k ids ops added = Inr res \<Longrightarrow>
   (case res of Done s' ops' added' \<Rightarrow> same_frame s s' | Recurse s' pid wkld \<Rightarrow> same_frame s s')"
proof (induction ids arbitrary: s ops added)
  case Nil
  then show ?case by auto
next
  case (Cons pid ids)
  let ?s' = "s\<lparr>trialRungs := AList.update pid (int k + 1) (trialRungs s),
                rungs := (rungs s)[k + 1 := (rungs s ! (k + 1))
                  \<lparr>outstandingTrials := outstandingTrials (rungs s ! (k + 1)) + 1\<rparr>]\<rparr>"
  have f: "same_frame s ?s'"
    by (simp add: same_frame_def map_stepsNeeded_update)
  from Cons.prems have k: "k + 1 < length (rungs s)"
    by (auto split: if_splits)
  show ?case
  proof (cases "earlyExitTrials s pid \<noteq> Some True")
    case True
    with Cons.prems k have "promotions_loop ?s' message k ids
        (ops @ trainAndValidate pid (stepsNeeded (rungs s ! k)) (stepsNeeded (rungs s ! (k + 1))))
        True = Inr res"
      by (simp add: Let_def)
    from Cons.IH [OF this] f show ?thesis
      by (auto split: promotions_loop_result.splits intro: same_frame_trans)
  next
    case False
    with Cons.prems k f show ?thesis
      by (auto simp: Let_def)
  qed
qed

lemma promote_finish_frame:
  "promote_finish s ctx ops added = Inr (s', ctx', ops') \<Longrightarrow> same_frame s s'"
  unfolding promote_finish_def Let_def
  by (auto split: if_splits sum.splits prod.splits
      dest!: create_trial_frame closeOutRungs_frame intro: same_frame_trans)

lemma promotionsAsync_steps:
  "promotionsAsync r rid m d = Inr (r', ids) \<Longrightarrow>
   stepsNeeded r' = stepsNeeded r \<and> outstandingTrials r' = outstandingTrials r"
  unfolding promotionsAsync_def Let_def
  by (auto split: sum.splits if_splits)

lemma promote_frame:
  "promote s ctx rid message m = Inr (s', ctx', ops) \<Longrightarrow> same_frame s s'"
proof (induction rule: promote_result_induct)
  case (top s ctx rid message m s' ctx' ops k s1)
  have "same_frame s (s1\<lparr>trialsCompleted := trialsCompleted s1 + 1\<rparr>)"
    by (simp add: top(4) same_frame_def map_stepsNeeded_update)
  with promote_finish_frame [OF top(6)] show ?case
    by (rule same_frame_trans [rotated])
next
  case (finish s ctx rid message m s' ctx' ops k s1 r' ids s2 ops2 added)
  have "stepsNeeded r' = stepsNeeded (rungs s ! k)"
    using promotionsAsync_steps [OF finish(7)] finish(3) by (simp add: finish(4))
  then have "same_frame s (s1\<lparr>rungs := (rungs s1)[k := r']\<rparr>)"
    by (simp add: finish(4) same_frame_def map_stepsNeeded_update)
  moreover have "same_frame (s1\<lparr>rungs := (rungs s1)[k := r']\<rparr>) s2"
    using promotions_loop_frame [OF finish(8)] by simp
  moreover have "same_frame s2 s'"
    using promote_finish_frame [OF finish(9)] .
  ultimately show ?case
    by (blast intro: same_frame_trans)
next
  case (recurse s ctx rid message m s' ctx' ops k s1 r' ids s2 pid wkld)
  have "stepsNeeded r' = stepsNeeded (rungs s ! k)"
    using promotionsAsync_steps [OF recurse(7)] recurse(3) by (simp add: recurse(4))
  then have "same_frame s (s1\<lparr>rungs := (rungs s1)[k := r']\<rparr>)"
    by (simp add: recurse(4) same_frame_def map_stepsNeeded_update)
  moreover have "same_frame (s1\<lparr>rungs := (rungs s1)[k := r']\<rparr>) s2"
    using promotions_loop_frame [OF recurse(8)] by simp
  ultimately show ?case
    using recurse(10) by (blast intro: same_frame_trans)
qed

subsection \<open>Construction, the public calls and runs\<close>

lemma new_rung_eq:
  assumes "1 \<le> Divisor cfg" "int i < NumRungs cfg" "0 \<le> TargetTrialSteps cfg"
  shows "new_rung cfg i =
     Inr \<lparr>stepsNeeded = max \<lfloor>of_int (TargetTrialSteps cfg) / Divisor cfg ^ (nat (NumRungs cfg) - 1 - i)\<rfloor> 1,
          outstandingTrials = 0, metrics = []\<rparr>"
proof -
  have e: "nat (NumRungs cfg - int i - 1) = nat (NumRungs cfg) - 1 - i"
    using assms(2) by linarith
  have "0 < Divisor cfg ^ (nat (NumRungs cfg) - 1 - i)"
    using assms(1) by simp
  moreover have "Divisor cfg \<noteq> 0" using assms(1) by auto
  moreover have "0 \<le> rat_of_int (TargetTrialSteps cfg) / Divisor cfg ^ (nat (NumRungs cfg) - 1 - i)"
    using assms(1,3) by simp
  ultimately show ?thesis
    using assms(2) by (simp add: new_rung_def math_Pow_def float_div_def go_int_def e)
qed

lemma new_rungs_eq:
  assumes "1 \<le> Divisor cfg" "0 \<le> TargetTrialSteps cfg"
  shows "int (i + n) \<le> NumRungs cfg \<Longrightarrow>
     new_rungs cfg i n =
     Inr (map (\<lambda>j. \<lparr>stepsNeeded = max \<lfloor>of_int (TargetTrialSteps cfg)
                                         / Divisor cfg ^ (nat (NumRungs cfg) - 1 - j)\<rfloor> 1,
                      outstandingTrials = 0, metrics = []\<rparr>) [i..<i + n])"
proof (induction n arbitrary: i)
  case 0
  then show ?case by simp
next
  case (Suc n)
  have "int i < NumRungs cfg" using Suc.prems by simp
  note r = new_rung_eq [OF assms(1) this assms(2)]
  have "int (Suc i + n) \<le> NumRungs cfg" using Suc.prems by simp
  note rs = Suc.IH [OF this]
  have u: "[i..<i + Suc n] = i # [Suc i..<Suc i + n]"
    by (simp add: upt_conv_Cons)
  show ?case
    unfolding u new_rungs.simps r rs by simp
qed

lemma newAsyncHalvingSearch_eq:
  assumes "1 \<le> Divisor cfg" "0 \<le> NumRungs cfg" "0 \<le> TargetTrialSteps cfg"
  shows "newAsyncHalvingSearch cfg =
     Inr \<lparr>config = cfg,
          rungs = map (\<lambda>j. \<lparr>stepsNeeded = max \<lfloor>of_int (TargetTrialSteps cfg)
                                         / Divisor cfg ^ (nat (NumRungs cfg) - 1 - j)\<rfloor> 1,
                      outstandingTrials = 0, metrics = []\<rparr>) [0..<nat (NumRungs cfg)],
          trialRungs = [], earlyExitTrials = Map.empty,
          maxTrials = MaxTrials cfg, trialsCompleted = 0\<rparr>"
  using new_rungs_eq [OF assms(1,3), of 0 "nat (NumRungs cfg)"] assms(2)
  by (simp add: newAsyncHalvingSearch_def)

lemma newAsyncHalvingSearch_ok:
  assumes "valid_config cfg"
  shows "\<exists>s. newAsyncHalvingSearch cfg = Inr s \<and> search_ok s \<and> config s = cfg"
proof -
  from assms have c: "1 \<le> Divisor cfg" "0 \<le> NumRungs cfg" "0 \<le> TargetTrialSteps cfg"
    "1 \<le> NumRungs cfg"
    by (simp_all add: valid_config_def)
  show ?thesis
    unfolding newAsyncHalvingSearch_eq [OF c(1-3)]
    using c by (simp add: search_ok_def trialRungs_lookup_def rung_ok_def top_promoted_def)
qed

lemma create_trials_ok:
  assumes "search_ok s"
  shows "\<exists>s' ctx' ops. create_trials n s ctx = Inr (s', ctx', ops) \<and> search_ok s' \<and> same_frame s s'"
  using assms
proof (induction n arbitrary: s ctx)
  case 0
  then show ?case by simp
next
  case (Suc n)
  from create_trial_ok [OF Suc.prems, of ctx] obtain s1 ctx1 ops1 where
    c: "create_trial s ctx = Inr (s1, ctx1, ops1)" and ok1: "search_ok s1" by blast
  from Suc.IH [OF ok1, of ctx1] obtain s2 ctx2 ops2 where
    r: "create_trials n s1 ctx1 = Inr (s2, ctx2, ops2)" and ok2: "search_ok s2"
    and f: "same_frame s1 s2" by blast
  from create_trial_frame [OF c] f have "same_frame s s2" by (rule same_frame_trans)
  with c r ok2 show ?case by simp
qed

lemma initialOperations_ok:
  assumes "search_ok s"
  shows "\<exists>s' ctx' ops. initialOperations s ctx = Inr (s', ctx', ops, None) \<and> search_ok s'
           \<and> same_frame s s'"
proof -
  have "0 \<le> NumRungs (config s) - 1" using assms by (simp add: search_ok_def)
  then have "\<exists>n. go_int (math_Pow (Divisor (config s)) (NumRungs (config s) - 1)) = Inr n"
    by (simp add: go_int_def math_Pow_def)
  then have "\<exists>c.
    (if MaxConcurrentTrials (config s) > 0
            then Inr (min (MaxConcurrentTrials (config s)) (MaxTrials (config s)))
            else (case go_int (math_Pow (Divisor (config s)) (NumRungs (config s) - 1)) of
                    Inl p \<Rightarrow> Inl p
                  | Inr n \<Rightarrow> Inr (max (min n (MaxTrials (config s))) 1))) = (Inr c :: go_panic + int)"
    by (cases "MaxConcurrentTrials (config s) > 0") auto
  then obtain c where
    "(if MaxConcurrentTrials (config s) > 0
            then Inr (min (MaxConcurrentTrials (config s)) (MaxTrials (config s)))
            else (case go_int (math_Pow (Divisor (config s)) (NumRungs (config s) - 1)) of
                    Inl p \<Rightarrow> Inl p
                  | Inr n \<Rightarrow> Inr (max (min n (MaxTrials (config s))) 1))) = (Inr c :: go_panic + int)"
    by blast
  moreover from create_trials_ok [OF assms, of "nat c" ctx] obtain s' ctx' ops where
    "create_trials (nat c) s ctx = Inr (s', ctx', ops)" "search_ok s'" "same_frame s s'"
    by blast
  ultimately show ?thesis
    unfolding initialOperations_def by simp
qed

lemma search_ok_earlyExit [simp]:
  "search_ok (s\<lparr>earlyExitTrials := e\<rparr>) = search_ok s"
  by (simp add: search_ok_def trialRungs_lookup_def)

lemma deliver_ok:
  assumes "search_ok s"
  shows "\<exists>s' ctx' ops err. deliver s ctx ev = Inr (s', ctx', ops, err) \<and> search_ok s'
           \<and> config s' = config s"
proof (cases ev)
  case (TrainCompleted rid message)
  with assms show ?thesis by (simp add: trainCompleted_def)
next
  case (ValidationCompleted rid message vm)
  show ?thesis
  proof (cases "ValidationMetrics_Metric vm (Metric (config s))")
    case (Inl e)
    with assms ValidationCompleted show ?thesis by (simp add: validationCompleted_def)
  next
    case (Inr v)
    from promote_ok [OF assms, of ctx rid message
           "if \<not> SmallerIsBetter (config s) then v * (- 1) else v"]
    obtain s' ctx' ops where
      p: "promote s ctx rid message (if \<not> SmallerIsBetter (config s) then v * (- 1) else v)
          = Inr (s', ctx', ops)" and ok: "search_ok s'" by blast
    from promote_frame [OF p] have "config s' = config s" by (simp add: same_frame_def)
    with p ok Inr ValidationCompleted show ?thesis by (simp add: validationCompleted_def)
  qed
next
  case (TrialExitedEarly rid message)
  let ?s = "s\<lparr>earlyExitTrials := (earlyExitTrials s)(rid \<mapsto> True)\<rparr>"
  have "search_ok ?s" using assms by simp
  from promote_ok [OF this, of ctx rid message ashaExitedMetricValue]
  obtain s' ctx' ops where
    p: "promote ?s ctx rid message ashaExitedMetricValue = Inr (s', ctx', ops)"
    and ok: "search_ok s'" by blast
  from promote_frame [OF p] have "config s' = config s" by (simp add: same_frame_def)
  with p ok TrialExitedEarly show ?thesis by (simp add: trialExitedEarly_def)
qed

lemma run_events_ok:
  assumes "search_ok s"
  shows "\<exists>s' ctx' ops. run_events s ctx evs = Inr (s', ctx', ops) \<and> search_ok s'
           \<and> config s' = config s"
  using assms
proof (induction evs arbitrary: s ctx)
  case Nil
  then show ?case by simp
next
  case (Cons ev evs)
  from deliver_ok [OF Cons.prems, of ctx ev] obtain s1 ctx1 ops1 err where
    d: "deliver s ctx ev = Inr (s1, ctx1, ops1, err)" and ok1: "search_ok s1"
    and c1: "config s1 = config s" by blast
  from Cons.IH [OF ok1, of ctx1] obtain s2 ctx2 ops2 where
    "run_events s1 ctx1 evs = Inr (s2, ctx2, ops2)" "search_ok s2" "config s2 = config s1"
    by blast
  with d c1 show ?case by simp
qed

lemma run_ok:
  assumes "valid_config cfg"
  shows "\<exists>s ctx' ops. run cfg ctx evs = Inr (s, ctx', ops) \<and> search_ok s \<and> config s = cfg"
proof -
  from newAsyncHalvingSearch_ok [OF assms] obtain s0 where
    n: "newAsyncHalvingSearch cfg = Inr s0" and ok0: "search_ok s0" and c0: "config s0 = cfg"
    by blast
  from initialOperations_ok [OF ok0, of ctx] obtain s1 ctx1 ops1 where
    i: "initialOperations s0 ctx = Inr (s1, ctx1, ops1, None)" and ok1: "search_ok s1"
    and f: "same_frame s0 s1" by blast
  from run_events_ok [OF ok1, of ctx1 evs] obtain s2 ctx2 ops2 where
    "run_events s1 ctx1 evs = Inr (s2, ctx2, ops2)" "search_ok s2" "config s2 = config s1"
    by blast
  with n i c0 f show ?thesis
    by (simp add: run_def same_frame_def)
qed

lemma map_update_same:
  "f v = f (ms ! k) \<Longrightarrow> map f (ms[k := v]) = map f ms"
  by (metis list_update_id map_update nth_map list_update_beyond not_le_imp_less length_map)



subsection \<open>The cap on the number of trials\<close>

lemma length_update_known:
  "k \<in> fst ` set al \<Longrightarrow> length (AList.update k v al) = length al"
  by (metis update_keys length_map set_map)

lemma length_update_bounds:
  "length al \<le> length (AList.update k v al)" "length (AList.update k v al) \<le> Suc (length al)"
proof -
  have "length (map fst (AList.update k v al)) =
        (if k \<in> set (map fst al) then length al else Suc (length al))"
    unfolding update_keys by simp
  then show "length al \<le> length (AList.update k v al)"
    "length (AList.update k v al) \<le> Suc (length al)"
    by (simp_all split: if_splits)
qed

lemma created_append [simp]: "created (xs @ ys) = created xs @ created ys"
  by (induction xs rule: created.induct) simp_all

lemma created_trainAndValidate [simp]: "created (trainAndValidate rid a b) = []"
  by (simp add: trainAndValidate_def)

lemma closeOutMetrics_created: "closeOutMetrics ee ts = (ts', c, ops) \<Longrightarrow> created ops = []"
  by (induction ts arbitrary: ts' c ops) (auto split: prod.splits if_splits)

lemma closeOutRungs_loop_created:
  "closeOutRungs_loop ee rs = (rs', c, ops) \<Longrightarrow> created ops = []"
  by (induction rs arbitrary: rs' c ops)
     (auto split: prod.splits if_splits dest: closeOutMetrics_created)

lemma closeOutRungs_created: "closeOutRungs s = (s', ops) \<Longrightarrow> created ops = []"
  by (auto simp: closeOutRungs_def split: prod.splits dest: closeOutRungs_loop_created)

lemma closeOutRungs_loop_ids:
  "closeOutRungs_loop ee rs = (rs', c, ops) \<Longrightarrow>
   map (\<lambda>r. map requestID (metrics r)) rs' = map (\<lambda>r. map requestID (metrics r)) rs"
  by (induction rs arbitrary: rs' c ops)
     (auto split: prod.splits if_splits dest: closeOutMetrics_maps)

lemma rung_ids_eq:
  assumes "map (\<lambda>r. map requestID (metrics r)) rs' = map (\<lambda>r. map requestID (metrics r)) rs"
  shows "(\<forall>r\<in>set rs'. \<forall>t\<in>set (metrics r). P (requestID t))
         = (\<forall>r\<in>set rs. \<forall>t\<in>set (metrics r). P (requestID t))"
proof -
  have "(\<forall>r\<in>set xs. \<forall>t\<in>set (metrics r). P (requestID t))
        = (\<forall>l\<in>set (map (\<lambda>r. map requestID (metrics r)) xs). \<forall>i\<in>set l. P i)" for xs
    by auto
  with assms show ?thesis by metis
qed

lemma closeOutRungs_cap:
  assumes "cap_ok s" "closeOutRungs s = (s', ops)"
  shows "cap_ok s'"
proof -
  obtain rs c cl where l: "closeOutRungs_loop (earlyExitTrials s) (rungs s) = (rs, c, cl)"
    by (cases "closeOutRungs_loop (earlyExitTrials s) (rungs s)") auto
  with assms(2) have s': "s' = s\<lparr>rungs := rs, trialsCompleted := trialsCompleted s + c\<rparr>"
    by (simp add: closeOutRungs_def)
  from rung_ids_eq [OF closeOutRungs_loop_ids [OF l], of "\<lambda>i. i \<in> fst ` set (trialRungs s)"] assms(1)
  show ?thesis
    by (simp add: s' cap_ok_def)
qed

lemma promote_finish_cap:
  assumes "cap_ok s" "promote_finish s ctx ops added = Inr (s', ctx', ops')"
  shows "cap_ok s'"
    and "created ops' \<noteq> created ops \<Longrightarrow> int (length (trialRungs s)) < maxTrials s"
proof -
  obtain s1 ctx1 ops1 where
    c: "(if \<not> added \<and> int (length (trialRungs s)) < maxTrials s then
              (case create_trial s ctx of
                 Inl p \<Rightarrow> Inl p
               | Inr (s', ctx', cops) \<Rightarrow> Inr (s', ctx', ops @ cops))
            else Inr (s, ctx, ops)) = Inr (s1, ctx1, ops1)"
    using assms(2) unfolding promote_finish_def Let_def by (auto split: sum.splits)
  have ok1: "cap_ok s1"
  proof (cases "\<not> added \<and> int (length (trialRungs s)) < maxTrials s")
    case True
    with c obtain cops where ct: "create_trial s ctx = Inr (s1, ctx1, cops)"
      by (auto split: sum.splits)
    then obtain r0 rs where rs: "rungs s = r0 # rs"
      and s1: "s1 = s\<lparr>rungs := r0\<lparr>outstandingTrials := outstandingTrials r0 + 1\<rparr> # rs,
                       trialRungs := AList.update (rand ctx) 0 (trialRungs s)\<rparr>"
      by (auto simp: create_trial_def NewCreate_def split: list.splits)
    have "int (length (AList.update (rand ctx) 0 (trialRungs s))) \<le> maxTrials s"
      using True length_update_bounds(2) [of "rand ctx" 0 "trialRungs s"] by linarith
    with assms(1) rs show ?thesis
      by (auto simp: cap_ok_def s1 dom_update)
  next
    case False
    with c assms(1) show ?thesis by auto
  qed
  have cr: "created ops1 \<noteq> created ops \<Longrightarrow> int (length (trialRungs s)) < maxTrials s"
    using c by (auto split: if_splits)
  obtain s2 cl where cl: "closeOutRungs s1 = (s2, cl)"
    by (cases "closeOutRungs s1") auto
  from assms(2) c cl have res: "(s', ops') = (s1, ops1) \<or> (s', ops') = (s2, ops1 @ cl)"
    unfolding promote_finish_def Let_def by (auto split: if_splits)
  from closeOutRungs_cap [OF ok1 cl] ok1 res show "cap_ok s'" by auto
  from closeOutRungs_created [OF cl] res cr
  show "created ops' \<noteq> created ops \<Longrightarrow> int (length (trialRungs s)) < maxTrials s"
    by auto
qed

lemma all_set_update:
  "(\<forall>r\<in>set rs. Q r) \<Longrightarrow> Q v \<Longrightarrow> \<forall>r\<in>set (rs[k := v]). Q r"
  using set_update_subset_insert [of rs k v] by auto

lemma all_set_update_outstanding:
  assumes "\<forall>r\<in>set rs. Q (metrics r)"
  shows "\<forall>r\<in>set (rs[k := (rs ! k)\<lparr>outstandingTrials := n\<rparr>]). Q (metrics r)"
proof (cases "k < length rs")
  case True
  then have "Q (metrics ((rs ! k)\<lparr>outstandingTrials := n\<rparr>))"
    using assms by simp
  with assms show ?thesis by (rule all_set_update)
next
  case False
  with assms show ?thesis by (simp add: list_update_beyond)
qed

lemma ids_known_update_outstanding:
  assumes "\<forall>r\<in>set rs. \<forall>t\<in>set (metrics r). requestID t \<in> K"
  shows "\<forall>r\<in>set (rs[k := (rs ! k)\<lparr>outstandingTrials := n\<rparr>]).
           \<forall>t\<in>set (metrics r). requestID t \<in> K"
  using all_set_update_outstanding
    [where Q = "\<lambda>ms. \<forall>t\<in>set ms. requestID t \<in> K", OF assms] .

lemma promotionsAsync_shape:
  assumes "promotionsAsync r rid m d = Inr (r', ps)"
  shows "\<exists>i. map requestID (metrics r') =
               take i (map requestID (metrics r)) @ rid # drop i (map requestID (metrics r))"
    and "ps = [] \<or> ps = [rid] \<or> (\<exists>k<length (metrics r'). ps = [requestID (metrics r' ! k)])"
proof -
  define i where "i = Search (length (metrics r)) (\<lambda>k. metric (metrics r ! k) > m)"
  obtain old new where
    old: "go_int (float_div (Some (of_nat (length (metrics r)))) (Some d)) = Inr old"
    and new: "go_int (float_div (Some (of_nat (length (metrics r) + 1))) (Some d)) = Inr new"
    using assms unfolding promotionsAsync_def by (auto split: sum.splits)
  define e where "e = \<lparr>requestID = rid, metric = m, promoted = (int i < new), closed = False\<rparr>"
  define ms where "ms = take i (metrics r) @ [e] @ drop i (metrics r)"
  have ids: "map requestID ms = take i (map requestID (metrics r)) @ rid # drop i (map requestID (metrics r))"
    by (simp add: ms_def e_def take_map drop_map)
  have res: "(r', ps) = (r\<lparr>metrics := ms\<rparr>, [rid]) \<or> (r', ps) = (r\<lparr>metrics := ms\<rparr>, []) \<or>
     (nat old < length ms \<and>
      (r', ps) = (r\<lparr>metrics := ms[nat old := (ms ! nat old)\<lparr>promoted := True\<rparr>]\<rparr>,
                  [requestID (ms ! nat old)]))"
    using assms unfolding promotionsAsync_def old new Let_def i_def [symmetric]
      e_def [symmetric] ms_def [symmetric] sum.case
    by (auto split: if_splits)
  have upd: "map requestID (ms[nat old := (ms ! nat old)\<lparr>promoted := True\<rparr>]) = map requestID ms"
    by (rule map_update_same) simp
  from res ids upd show "\<exists>i. map requestID (metrics r') =
               take i (map requestID (metrics r)) @ rid # drop i (map requestID (metrics r))"
    by auto
  from res show "ps = [] \<or> ps = [rid] \<or> (\<exists>k<length (metrics r'). ps = [requestID (metrics r' ! k)])"
    by auto
qed

lemma promotionsAsync_ids:
  assumes "promotionsAsync r rid m d = Inr (r', ps)"
  shows "requestID ` set (metrics r') = insert rid (requestID ` set (metrics r))"
    and "set ps \<subseteq> requestID ` set (metrics r')"
proof -
  from promotionsAsync_shape(1) [OF assms] obtain i where
    i: "map requestID (metrics r') =
        take i (map requestID (metrics r)) @ rid # drop i (map requestID (metrics r))" ..
  have "set (take i xs @ rid # drop i xs) = insert rid (set xs)" for xs :: "RequestID list"
  proof -
    have "set (take i xs) \<union> set (drop i xs) = set xs"
      by (metis append_take_drop_id set_append)
    then show ?thesis by auto
  qed
  then have "set (map requestID (metrics r')) = insert rid (set (map requestID (metrics r)))"
    unfolding i .
  then show a: "requestID ` set (metrics r') = insert rid (requestID ` set (metrics r))"
    by simp
  from promotionsAsync_shape(2) [OF assms] show "set ps \<subseteq> requestID ` set (metrics r')"
    using a by auto
qed

lemma cap_ok_outstanding:
  assumes "cap_ok s"
  shows "cap_ok (s\<lparr>rungs := (rungs s)[k := (rungs s ! k)\<lparr>outstandingTrials := n\<rparr>]\<rparr>)"
proof -
  have "\<forall>r\<in>set (rungs s). \<forall>t\<in>set (metrics r). requestID t \<in> fst ` set (trialRungs s)"
    using assms by (simp add: cap_ok_def)
  from ids_known_update_outstanding [OF this, of k n] assms show ?thesis
    by (simp add: cap_ok_def)
qed

lemma cap_ok_trialsCompleted [simp]: "cap_ok (s\<lparr>trialsCompleted := n\<rparr>) = cap_ok s"
  by (simp add: cap_ok_def)

lemma cap_ok_insert:
  assumes "cap_ok s" "k < length (rungs s)" "rid \<in> fst ` set (trialRungs s)"
    and "promotionsAsync (rungs s ! k) rid m d = Inr (r', ids)"
  shows "cap_ok (s\<lparr>rungs := (rungs s)[k := r']\<rparr>)"
    and "set ids \<subseteq> fst ` set (trialRungs s)"
proof -
  let ?K = "fst ` set (trialRungs s)"
  have all: "\<forall>r\<in>set (rungs s). \<forall>t\<in>set (metrics r). requestID t \<in> ?K"
    and len: "int (length (trialRungs s)) \<le> maxTrials s"
    using assms(1) unfolding cap_ok_def by blast+
  have "rungs s ! k \<in> set (rungs s)" using assms(2) by (rule nth_mem)
  with all have "requestID ` set (metrics (rungs s ! k)) \<subseteq> ?K"
    by blast
  then have sub: "requestID ` set (metrics r') \<subseteq> ?K"
    unfolding promotionsAsync_ids(1) [OF assms(4)] using assms(3) by blast
  then have r': "\<forall>t\<in>set (metrics r'). requestID t \<in> ?K"
    by blast
  from all r' have "\<forall>r\<in>set ((rungs s)[k := r']). \<forall>t\<in>set (metrics r). requestID t \<in> ?K"
    by (rule all_set_update)
  then show "cap_ok (s\<lparr>rungs := (rungs s)[k := r']\<rparr>)"
    unfolding cap_ok_def using len by simp
  from promotionsAsync_ids(2) [OF assms(4)] sub show "set ids \<subseteq> ?K"
    by (rule subset_trans)
qed

lemma cap_ok_register:
  assumes "cap_ok s" "pid \<in> fst ` set (trialRungs s)"
  shows "cap_ok (s\<lparr>trialRungs := AList.update pid v (trialRungs s),
                   rungs := (rungs s)[j := (rungs s ! j)\<lparr>outstandingTrials := n\<rparr>]\<rparr>)"
    and "fst ` set (AList.update pid v (trialRungs s)) = fst ` set (trialRungs s)"
proof -
  show keys: "fst ` set (AList.update pid v (trialRungs s)) = fst ` set (trialRungs s)"
    using assms(2) by (auto simp: dom_update)
  have len: "length (AList.update pid v (trialRungs s)) = length (trialRungs s)"
    using assms(2) by (rule length_update_known)
  from cap_ok_outstanding [OF assms(1), of j n] show
    "cap_ok (s\<lparr>trialRungs := AList.update pid v (trialRungs s),
                   rungs := (rungs s)[j := (rungs s ! j)\<lparr>outstandingTrials := n\<rparr>]\<rparr>)"
    unfolding cap_ok_def by (simp add: keys len)
qed

lemma promotions_loop_cap:
  assumes "cap_ok s" "set ids \<subseteq> fst ` set (trialRungs s)"
    and "promotions_loop s message k ids ops added = Inr res"
  shows "case res of
           Done s' ops' added' \<Rightarrow> cap_ok s'
         | Recurse s' pid wkld \<Rightarrow> cap_ok s' \<and> pid \<in> fst ` set (trialRungs s')"
  using assms
proof (induction ids arbitrary: s ops added)
  case Nil
  then show ?case by auto
next
  case (Cons pid ids)
  define s' where "s' = s\<lparr>trialRungs := AList.update pid (int k + 1) (trialRungs s),
                rungs := (rungs s)[k + 1 := (rungs s ! (k + 1))
                  \<lparr>outstandingTrials := outstandingTrials (rungs s ! (k + 1)) + 1\<rparr>]\<rparr>"
  from Cons.prems(3) have k: "k + 1 < length (rungs s)"
    by (auto split: if_splits)
  have pid: "pid \<in> fst ` set (trialRungs s)" using Cons.prems(2) by simp
  have ok': "cap_ok s'" and keys: "fst ` set (trialRungs s') = fst ` set (trialRungs s)"
    unfolding s'_def using cap_ok_register [OF Cons.prems(1) pid] by simp_all
  show ?case
  proof (cases "earlyExitTrials s pid \<noteq> Some True")
    case True
    with Cons.prems(3) k have "promotions_loop s' message k ids
        (ops @ trainAndValidate pid (stepsNeeded (rungs s ! k)) (stepsNeeded (rungs s ! (k + 1))))
        True = Inr res"
      by (simp add: Let_def s'_def)
    moreover have "set ids \<subseteq> fst ` set (trialRungs s')"
      using Cons.prems(2) unfolding keys by simp
    ultimately show ?thesis using Cons.IH [OF ok'] by blast
  next
    case False
    with Cons.prems(3) k have "res = Recurse s' pid
        \<lparr>Kind = ComputeValidationMetrics, ExperimentID = ExperimentID message,
         TrialID = TrialID message, StepID = stepsNeeded (rungs s ! (k + 1))\<rparr>"
      by (simp add: Let_def s'_def)
    with ok' pid keys show ?thesis by simp
  qed
qed

lemma promote_cap:
  assumes "promote s ctx rid message m = Inr (s', ctx', ops)"
  shows "cap_ok s \<and> rid \<in> fst ` set (trialRungs s) \<longrightarrow> cap_ok s'"
  using assms
proof (induction rule: promote_result_induct)
  case (top s ctx rid message m s' ctx' ops k s1)
  show ?case
  proof
    assume a: "cap_ok s \<and> rid \<in> fst ` set (trialRungs s)"
    then have "cap_ok s1" unfolding top(4) by (intro cap_ok_outstanding) simp
    then have "cap_ok (s1\<lparr>trialsCompleted := trialsCompleted s1 + 1\<rparr>)" by simp
    from promote_finish_cap(1) [OF this top(6)] show "cap_ok s'" .
  qed
next
  case (finish s ctx rid message m s' ctx' ops k s1 r' ids s2 ops2 added)
  show ?case
  proof
    assume a: "cap_ok s \<and> rid \<in> fst ` set (trialRungs s)"
    then have ok1: "cap_ok s1" unfolding finish(4) by (intro cap_ok_outstanding) simp
    have k1: "k < length (rungs s1)" and t1: "rid \<in> fst ` set (trialRungs s1)"
      using finish(3) a by (simp_all add: finish(4))
    note ins = cap_ok_insert [OF ok1 k1 t1 finish(7)]
    from promotions_loop_cap [OF ins(1) _ finish(8)] ins(2) have "cap_ok s2" by simp
    from promote_finish_cap(1) [OF this finish(9)] show "cap_ok s'" .
  qed
next
  case (recurse s ctx rid message m s' ctx' ops k s1 r' ids s2 pid wkld)
  show ?case
  proof
    assume a: "cap_ok s \<and> rid \<in> fst ` set (trialRungs s)"
    then have ok1: "cap_ok s1" unfolding recurse(4) by (intro cap_ok_outstanding) simp
    have k1: "k < length (rungs s1)" and t1: "rid \<in> fst ` set (trialRungs s1)"
      using recurse(3) a by (simp_all add: recurse(4))
    note ins = cap_ok_insert [OF ok1 k1 t1 recurse(7)]
    from promotions_loop_cap [OF ins(1) _ recurse(8)] ins(2)
    have "cap_ok s2 \<and> pid \<in> fst ` set (trialRungs s2)" by simp
    with recurse(10) show "cap_ok s'" by blast
  qed
qed

lemma create_trial_created:
  "create_trial s ctx = Inr (s', ctx', ops) \<Longrightarrow> created ops = [rand ctx]"
  by (auto simp: create_trial_def NewCreate_def split: list.splits)

lemma promote_finish_created:
  assumes "promote_finish s ctx ops added = Inr (s', ctx', ops')"
    and "created ops' \<noteq> created ops"
  shows "int (length (trialRungs s)) < maxTrials s"
proof -
  obtain s1 ctx1 ops1 where
    c: "(if \<not> added \<and> int (length (trialRungs s)) < maxTrials s then
              (case create_trial s ctx of
                 Inl p \<Rightarrow> Inl p
               | Inr (s', ctx', cops) \<Rightarrow> Inr (s', ctx', ops @ cops))
            else Inr (s, ctx, ops)) = Inr (s1, ctx1, ops1)"
    using assms(1) unfolding promote_finish_def Let_def by (auto split: sum.splits)
  have cr: "created ops1 \<noteq> created ops \<Longrightarrow> int (length (trialRungs s)) < maxTrials s"
    using c by (auto split: if_splits)
  obtain s2 cl where cl: "closeOutRungs s1 = (s2, cl)"
    by (cases "closeOutRungs s1") auto
  from assms(1) c cl have res: "ops' = ops1 \<or> ops' = ops1 @ cl"
    unfolding promote_finish_def Let_def by (auto split: if_splits)
  from closeOutRungs_created [OF cl] res cr assms(2) show ?thesis
    by auto
qed

lemma promotions_loop_created:
  assumes "promotions_loop s message k ids ops added = Inr res"
  shows "case res of
           Done s' ops' added' \<Rightarrow>
             created ops' = created ops \<and> length (trialRungs s) \<le> length (trialRungs s')
         | Recurse s' pid wkld \<Rightarrow> length (trialRungs s) \<le> length (trialRungs s')"
  using assms
proof (induction ids arbitrary: s ops added)
  case Nil
  then show ?case by auto
next
  case (Cons pid ids)
  define s' where "s' = s\<lparr>trialRungs := AList.update pid (int k + 1) (trialRungs s),
                rungs := (rungs s)[k + 1 := (rungs s ! (k + 1))
                  \<lparr>outstandingTrials := outstandingTrials (rungs s ! (k + 1)) + 1\<rparr>]\<rparr>"
  from Cons.prems have k: "k + 1 < length (rungs s)"
    by (auto split: if_splits)
  have len: "length (trialRungs s) \<le> length (trialRungs s')"
    unfolding s'_def using length_update_bounds(1) [of "trialRungs s" pid "int k + 1"] by simp
  show ?case
  proof (cases "earlyExitTrials s pid \<noteq> Some True")
    case True
    with Cons.prems k have "promotions_loop s' message k ids
        (ops @ trainAndValidate pid (stepsNeeded (rungs s ! k)) (stepsNeeded (rungs s ! (k + 1))))
        True = Inr res"
      by (simp add: Let_def s'_def)
    from Cons.IH [OF this] len show ?thesis
      by (cases res) auto
  next
    case False
    with Cons.prems k have "res = Recurse s' pid
        \<lparr>Kind = ComputeValidationMetrics, ExperimentID = ExperimentID message,
         TrialID = TrialID message, StepID = stepsNeeded (rungs s ! (k + 1))\<rparr>"
      by (simp add: Let_def s'_def)
    with len show ?thesis by simp
  qed
qed

lemma promote_creates:
  assumes "promote s ctx rid message m = Inr (s', ctx', ops)"
  shows "created ops \<noteq> [] \<longrightarrow> int (length (trialRungs s)) < maxTrials s"
  using assms
proof (induction rule: promote_result_induct)
  case (top s ctx rid message m s' ctx' ops k s1)
  show ?case
  proof
    assume "created ops \<noteq> []"
    then have "created ops \<noteq> created (if earlyExitTrials s rid \<noteq> Some True then [Close rid] else [])"
      by simp
    from promote_finish_created [OF top(6) this] show "int (length (trialRungs s)) < maxTrials s"
      by (simp add: top(4))
  qed
next
  case (finish s ctx rid message m s' ctx' ops k s1 r' ids s2 ops2 added)
  show ?case
  proof
    assume c: "created ops \<noteq> []"
    from promotions_loop_created [OF finish(8)]
    have l: "created ops2 = []" "length (trialRungs s) \<le> length (trialRungs s2)"
      by (simp_all add: finish(4))
    from promotions_loop_frame [OF finish(8)] have "maxTrials s2 = maxTrials s"
      by (simp add: same_frame_def finish(4))
    moreover from c l(1) have "created ops \<noteq> created ops2" by simp
    from promote_finish_created [OF finish(9) this]
    have "int (length (trialRungs s2)) < maxTrials s2" .
    ultimately show "int (length (trialRungs s)) < maxTrials s" using l(2) by linarith
  qed
next
  case (recurse s ctx rid message m s' ctx' ops k s1 r' ids s2 pid wkld)
  show ?case
  proof
    assume c: "created ops \<noteq> []"
    from promotions_loop_created [OF recurse(8)]
    have l: "length (trialRungs s) \<le> length (trialRungs s2)"
      by (simp add: recurse(4))
    from promotions_loop_frame [OF recurse(8)] have "maxTrials s2 = maxTrials s"
      by (simp add: same_frame_def recurse(4))
    moreover from recurse(10) c have "int (length (trialRungs s2)) < maxTrials s2" by blast
    ultimately show "int (length (trialRungs s)) < maxTrials s" using l by linarith
  qed
qed

lemma create_trials_cap:
  assumes "\<forall>r\<in>set (rungs s). \<forall>t\<in>set (metrics r). requestID t \<in> fst ` set (trialRungs s)"
    and "create_trials n s ctx = Inr (s', ctx', ops)"
  shows "(\<forall>r\<in>set (rungs s'). \<forall>t\<in>set (metrics r). requestID t \<in> fst ` set (trialRungs s')) \<and>
         length (trialRungs s') \<le> length (trialRungs s) + n \<and> length (created ops) = n"
  using assms
proof (induction n arbitrary: s ctx s' ctx' ops)
  case 0
  then show ?case by simp
next
  case (Suc n)
  from Suc.prems(2) obtain s1 ctx1 ops1 s2 ctx2 ops2 where
    c: "create_trial s ctx = Inr (s1, ctx1, ops1)"
    and r: "create_trials n s1 ctx1 = Inr (s2, ctx2, ops2)"
    and res: "s' = s2" "ops = ops1 @ ops2"
    by (auto split: sum.splits)
  from c obtain r0 rs where rs: "rungs s = r0 # rs"
    and s1: "s1 = s\<lparr>rungs := r0\<lparr>outstandingTrials := outstandingTrials r0 + 1\<rparr> # rs,
                     trialRungs := AList.update (rand ctx) 0 (trialRungs s)\<rparr>"
    by (auto simp: create_trial_def NewCreate_def split: list.splits)
  have ids1: "\<forall>r\<in>set (rungs s1). \<forall>t\<in>set (metrics r). requestID t \<in> fst ` set (trialRungs s1)"
    using Suc.prems(1) rs by (auto simp: s1 dom_update)
  have len1: "length (trialRungs s1) \<le> Suc (length (trialRungs s))"
    unfolding s1 using length_update_bounds(2) [of "rand ctx" 0 "trialRungs s"] by simp
  from Suc.IH [OF ids1 r] len1 create_trial_created [OF c] res show ?case
    by simp
qed

lemma initialOperations_cap:
  assumes "newAsyncHalvingSearch cfg = Inr s0" "1 \<le> MaxTrials cfg"
    and "initialOperations s0 ctx = Inr (s, ctx', ops, err)"
  shows "cap_ok s" and "int (length (created ops)) \<le> MaxTrials cfg"
    and "maxTrials s = MaxTrials cfg"
proof -
  from assms(1) have s0: "config s0 = cfg" "trialRungs s0 = []" "maxTrials s0 = MaxTrials cfg"
    "\<forall>r\<in>set (rungs s0). metrics r = []"
  proof -
    from assms(1) obtain rs where rs: "new_rungs cfg 0 (nat (NumRungs cfg)) = Inr rs"
      and s0: "s0 = \<lparr>config = cfg, rungs = rs, trialRungs = [], earlyExitTrials = Map.empty,
               maxTrials = MaxTrials cfg, trialsCompleted = 0\<rparr>"
      by (auto simp: newAsyncHalvingSearch_def split: if_splits sum.splits)
    have "new_rungs cfg i n = Inr xs \<Longrightarrow> \<forall>r\<in>set xs. metrics r = []" for i n xs
      by (induction n arbitrary: i xs) (auto simp: new_rung_def split: sum.splits)
    from this [OF rs] s0
    show "config s0 = cfg" "trialRungs s0 = []" "maxTrials s0 = MaxTrials cfg"
      "\<forall>r\<in>set (rungs s0). metrics r = []"
      by simp_all
  qed
  from assms(3) obtain c where
    c: "(if MaxConcurrentTrials (config s0) > 0
            then Inr (min (MaxConcurrentTrials (config s0)) (MaxTrials (config s0)))
            else (case go_int (math_Pow (Divisor (config s0)) (NumRungs (config s0) - 1)) of
                    Inl p \<Rightarrow> Inl p
                  | Inr n \<Rightarrow> Inr (max (min n (MaxTrials (config s0))) 1))) = (Inr c :: go_panic + int)"
    and ct: "create_trials (nat c) s0 ctx = Inr (s, ctx', ops)"
    unfolding initialOperations_def by (auto split: sum.splits)
  have cle: "c \<le> MaxTrials cfg"
    using c assms(2) unfolding s0(1) by (auto split: if_splits sum.splits)
  have "\<forall>r\<in>set (rungs s0). \<forall>t\<in>set (metrics r). requestID t \<in> fst ` set (trialRungs s0)"
    using s0(4) by simp
  from create_trials_cap [OF this ct]
  have r: "\<forall>r\<in>set (rungs s). \<forall>t\<in>set (metrics r). requestID t \<in> fst ` set (trialRungs s)"
    "length (trialRungs s) \<le> nat c" "length (created ops) = nat c"
    by (simp_all add: s0(2))
  have m: "maxTrials s = MaxTrials cfg"
  proof -
    have "create_trials n a b = Inr (a', b', o') \<Longrightarrow> maxTrials a' = maxTrials a" for n a b a' b' o'
    proof (induction n arbitrary: a b a' b' o')
      case 0
      then show ?case by simp
    next
      case (Suc n)
      then show ?case
        by (auto split: sum.splits dest!: create_trial_frame simp: same_frame_def)
    qed
    from this [OF ct] s0(3) show ?thesis by simp
  qed
  from r cle assms(2) m show "cap_ok s"
    unfolding cap_ok_def by (intro conjI) (assumption, linarith)
  from r(3) cle assms(2) show "int (length (created ops)) \<le> MaxTrials cfg"
    by linarith
  from m show "maxTrials s = MaxTrials cfg" .
qed

lemma cap_ok_earlyExit [simp]: "cap_ok (s\<lparr>earlyExitTrials := e\<rparr>) = cap_ok s"
  by (simp add: cap_ok_def)

lemma deliver_cap:
  assumes "cap_ok s" "event_id ev \<in> fst ` set (trialRungs s)"
    and "deliver s ctx ev = Inr (s', ctx', ops, err)"
  shows "cap_ok s' \<and> maxTrials s' = maxTrials s"
proof (cases ev)
  case (TrainCompleted rid message)
  with assms show ?thesis by (simp add: trainCompleted_def)
next
  case (ValidationCompleted rid message vm)
  show ?thesis
  proof (cases "ValidationMetrics_Metric vm (Metric (config s))")
    case (Inl e)
    with assms ValidationCompleted show ?thesis by (simp add: validationCompleted_def)
  next
    case (Inr v)
    with assms(3) ValidationCompleted have
      p: "promote s ctx rid message (if \<not> SmallerIsBetter (config s) then v * (- 1) else v)
          = Inr (s', ctx', ops)"
      by (auto simp: validationCompleted_def split: sum.splits)
    from promote_cap [OF p] promote_frame [OF p] assms(1,2) ValidationCompleted show ?thesis
      by (simp add: same_frame_def)
  qed
next
  case (TrialExitedEarly rid message)
  let ?s = "s\<lparr>earlyExitTrials := (earlyExitTrials s)(rid \<mapsto> True)\<rparr>"
  from assms(3) TrialExitedEarly have
    p: "promote ?s ctx rid message ashaExitedMetricValue = Inr (s', ctx', ops)"
    by (auto simp: trialExitedEarly_def split: sum.splits)
  from promote_cap [OF p] promote_frame [OF p] assms(1,2) TrialExitedEarly show ?thesis
    by (simp add: same_frame_def)
qed

lemma run_events_cap:
  assumes "cap_ok s" "known_events s ctx evs"
    and "run_events s ctx evs = Inr (s', ctx', ops)"
  shows "cap_ok s' \<and> maxTrials s' = maxTrials s"
  using assms
proof (induction evs arbitrary: s ctx ops)
  case Nil
  then show ?case by simp
next
  case (Cons ev evs)
  from Cons.prems(3) obtain s1 ctx1 ops1 err ops2 where
    d: "deliver s ctx ev = Inr (s1, ctx1, ops1, err)"
    and r: "run_events s1 ctx1 evs = Inr (s', ctx', ops2)"
    by (auto split: sum.splits)
  from Cons.prems(2) d have k: "event_id ev \<in> fst ` set (trialRungs s)"
    and k': "known_events s1 ctx1 evs"
    by simp_all
  from deliver_cap [OF Cons.prems(1) k d] have "cap_ok s1" "maxTrials s1 = maxTrials s"
    by simp_all
  with Cons.IH [OF _ k' r] show ?case by simp
qed

subsection \<open>Trials that exited early\<close>

lemma trained_append [simp]: "trained (xs @ ys) = trained xs @ trained ys"
  by (induction xs rule: trained.induct) simp_all

lemma closes_append [simp]: "closes (xs @ ys) = closes xs @ closes ys"
  by (induction xs rule: closes.induct) simp_all

lemma closes_trainAndValidate [simp]: "closes (trainAndValidate rid a b) = []"
  by (simp add: trainAndValidate_def)

lemma trained_trainAndValidate [simp]: "trained (trainAndValidate rid a b) = [rid]"
  by (simp add: trainAndValidate_def)








lemma entries_outstanding [simp]: "entries (r\<lparr>outstandingTrials := n\<rparr>) = entries r"
  by (simp add: entries_def)













section \<open>Properties\<close>

subsection \<open>trainCompleted changes nothing\<close>

text \<open>
  Claim C10. In every state and for every trial, the handler of a completed training step
  returns no operation and no error, and the searcher and the context it returns are the
  ones it was given: only \<open>initialOperations\<close>, \<open>validationCompleted\<close> and
  \<open>trialExitedEarly\<close> change the state or emit operations.
\<close>

theorem trainCompleted_frame:
  "trainCompleted s ctx rid message = Inr (s, ctx, [], None)"
  by (simp add: trainCompleted_def)

subsection \<open>A validation without the configured metric\<close>

text \<open>
  Claim C8. When the metrics of a completed validation have no value for the configured
  metric name, \<open>validationCompleted\<close> returns the error \<open>MissingMetric\<close> and no
  operation, and the searcher (rungs, trial rungs, early exits, counters) and the context
  are unchanged.
\<close>

theorem validationCompleted_missing_metric:
  "vm (Metric (config s)) = None \<Longrightarrow>
   validationCompleted s ctx rid message vm = Inr (s, ctx, [], Some MissingMetric)"
  by (simp add: validationCompleted_def ValidationMetrics_Metric_def)

theorem validationCompleted_missing_metric_witness:
  "validationCompleted example_search example_context 0 example_message Map.empty
   = Inr (example_search, example_context, [], Some MissingMetric)"
  using validationCompleted_missing_metric
          [of Map.empty example_search example_context 0 example_message]
  by simp

subsection \<open>Insertion into a rung and the promotion it selects\<close>




subsection \<open>Every rung stays sorted\<close>



subsection \<open>How many entries of a rung are promoted\<close>

text \<open>
  Claim C2, as amended. After the construction, \<open>initialOperations\<close> and any sequence of
  delivered events, under a valid configuration, in every rung the best
  \<open>floor (len(metrics) / divisor)\<close> entries are all promoted, so that the number of
  promoted entries is at least \<open>floor (len(metrics) / divisor)\<close>.
\<close>

theorem promoted_count_at_least:
  assumes "valid_config cfg" and "run cfg ctx evs = Inr (s, ctx', ops)"
  shows "\<forall>r\<in>set (rungs s).
           list_all promoted (take (nat \<lfloor>of_nat (length (metrics r)) / Divisor cfg\<rfloor>) (metrics r)) \<and>
           \<lfloor>of_nat (length (metrics r)) / Divisor cfg\<rfloor> \<le> int (length (filter promoted (metrics r)))"
proof
  fix r assume r: "r \<in> set (rungs s)"
  from run_ok [OF assms(1), of ctx evs] assms(2)
  have ok: "search_ok s" and c: "config s = cfg" by simp_all
  have d: "1 \<le> Divisor cfg" using assms(1) by (simp add: valid_config_def)
  let ?p = "nat \<lfloor>of_nat (length (metrics r)) / Divisor cfg\<rfloor>"
  have top: "list_all promoted (take ?p (metrics r))"
    using ok c r by (auto simp: search_ok_def rung_ok_def top_promoted_def in_set_conv_nth)
  have p: "0 \<le> \<lfloor>of_nat (length (metrics r)) / Divisor cfg\<rfloor>"
    "\<lfloor>of_nat (length (metrics r)) / Divisor cfg\<rfloor> \<le> int (length (metrics r))"
    using floor_div_bounds [OF d, of "length (metrics r)"] by simp_all
  have "filter promoted (take ?p (metrics r)) = take ?p (metrics r)"
    using top by (simp add: list_all_iff)
  then have "length (filter promoted (take ?p (metrics r))) = ?p"
    using p by simp
  moreover have "length (filter promoted (take ?p (metrics r)))
      \<le> length (filter promoted (take ?p (metrics r) @ drop ?p (metrics r)))"
    unfolding filter_append by simp
  ultimately have "?p \<le> length (filter promoted (metrics r))"
    by simp
  with top p show "list_all promoted (take ?p (metrics r)) \<and>
           \<lfloor>of_nat (length (metrics r)) / Divisor cfg\<rfloor> \<le> int (length (filter promoted (metrics r)))"
    by linarith
qed

theorem promoted_count_at_least_witness:
  "valid_config example_config \<and>
   (\<exists>s ctx' ops.
      run example_config example_context
        [ValidationCompleted 0 example_message (loss 5),
         ValidationCompleted 1 example_message (loss 4),
         ValidationCompleted 2 example_message (loss 6)] = Inr (s, ctx', ops) \<and>
      list_all (\<lambda>r. \<lfloor>of_nat (length (metrics r)) / Divisor example_config\<rfloor>
                      \<le> int (length (filter promoted (metrics r)))) (rungs s))"
proof -
  have v: "valid_config example_config"
    by (simp add: valid_config_def example_config_def)
  from run_ok [OF v] obtain s ctx' ops where
    r: "run example_config example_context
        [ValidationCompleted 0 example_message (loss 5),
         ValidationCompleted 1 example_message (loss 4),
         ValidationCompleted 2 example_message (loss 6)] = Inr (s, ctx', ops)"
    by blast
  from promoted_count_at_least [OF v r]
  have "list_all (\<lambda>r. \<lfloor>of_nat (length (metrics r)) / Divisor example_config\<rfloor>
                      \<le> int (length (filter promoted (metrics r)))) (rungs s)"
    by (simp add: list_all_iff)
  with v r show ?thesis by blast
qed

text \<open>
  Claim C2 as stated has the number of promoted entries equal to
  \<open>floor (len(metrics) / divisor)\<close>. With divisor \<open>2\<close> and three trials validated with
  the losses \<open>5\<close>, \<open>4\<close> and \<open>3\<close>, the second and the third are each better than all
  before them and promoted on arrival: two promoted entries among three, where the floor
  is one.
\<close>

theorem promoted_count_exceeds:
  "(case run example_config example_context
         [ValidationCompleted 0 example_message (loss 5),
          ValidationCompleted 1 example_message (loss 4),
          ValidationCompleted 2 example_message (loss 3)] of
      Inr (s, ctx, ops) \<Rightarrow>
        map (\<lambda>r. (\<lfloor>of_nat (length (metrics r)) / Divisor example_config\<rfloor>,
                  int (length (filter promoted (metrics r))))) (rungs s)
    | Inl p \<Rightarrow> []) = [(1, 2), (0, 0)]"
  by code_simp

subsection \<open>The ladder of rungs\<close>




subsection \<open>The cap on the number of trials\<close>

text \<open>
  Claim C9. Under a configuration with at least one trial allowed: after the construction,
  \<open>initialOperations\<close> and any sequence of delivered events that name registered trials,
  the number of registered trials is at most \<open>max_trials\<close>; a call of \<open>promote\<close> emits a
  \<open>Create\<close> only if fewer than \<open>max_trials\<close> trials were registered when it was called;
  and \<open>initialOperations\<close> creates at most \<open>max_trials\<close> trials.
\<close>

theorem trial_cap:
  assumes "1 \<le> MaxTrials cfg"
  shows "(\<forall>ctx evs s ctx' ops.
            run cfg ctx evs = Inr (s, ctx', ops) \<and> known_run cfg ctx evs \<longrightarrow>
            int (length (trialRungs s)) \<le> MaxTrials cfg) \<and>
         (\<forall>s ctx rid message m s' ctx' ops.
            promote s ctx rid message m = Inr (s', ctx', ops) \<and> created ops \<noteq> [] \<longrightarrow>
            int (length (trialRungs s)) < maxTrials s) \<and>
         (\<forall>s0 ctx s ctx' ops err.
            newAsyncHalvingSearch cfg = Inr s0 \<and>
            initialOperations s0 ctx = Inr (s, ctx', ops, err) \<longrightarrow>
            int (length (created ops)) \<le> MaxTrials cfg)"
proof (intro conjI allI impI)
  fix ctx evs s ctx' ops
  assume a: "run cfg ctx evs = Inr (s, ctx', ops) \<and> known_run cfg ctx evs"
  then obtain s0 s1 ctx1 ops1 err ops2 where
    n: "newAsyncHalvingSearch cfg = Inr s0"
    and i: "initialOperations s0 ctx = Inr (s1, ctx1, ops1, err)"
    and r: "run_events s1 ctx1 evs = Inr (s, ctx', ops2)"
    by (auto simp: run_def split: sum.splits)
  from a n i have k: "known_events s1 ctx1 evs"
    by (simp add: known_run_def)
  from initialOperations_cap(1) [OF n assms i] have c1: "cap_ok s1" .
  from initialOperations_cap(3) [OF n assms i] have "maxTrials s1 = MaxTrials cfg" .
  with run_events_cap [OF c1 k r] show "int (length (trialRungs s)) \<le> MaxTrials cfg"
    by (simp add: cap_ok_def)
next
  fix s ctx rid message m s' ctx' ops
  assume "promote s ctx rid message m = Inr (s', ctx', ops) \<and> created ops \<noteq> []"
  with promote_creates show "int (length (trialRungs s)) < maxTrials s" by blast
next
  fix s0 ctx s ctx' ops err
  assume "newAsyncHalvingSearch cfg = Inr s0 \<and> initialOperations s0 ctx = Inr (s, ctx', ops, err)"
  with initialOperations_cap(2) assms show "int (length (created ops)) \<le> MaxTrials cfg"
    by blast
qed

theorem trial_cap_witness:
  "1 \<le> MaxTrials example_config \<and>
   known_run example_config example_context [ValidationCompleted 0 example_message (loss 5)] \<and>
   (\<exists>s ctx' ops.
      run example_config example_context [ValidationCompleted 0 example_message (loss 5)]
        = Inr (s, ctx', ops) \<and>
      int (length (trialRungs s)) \<le> MaxTrials example_config)"
proof -
  have m: "1 \<le> MaxTrials example_config" by (simp add: example_config_def)
  have v: "valid_config example_config"
    by (simp add: valid_config_def example_config_def)
  have k: "known_run example_config example_context
             [ValidationCompleted 0 example_message (loss 5)]"
    by code_simp
  from run_ok [OF v] obtain s ctx' ops where
    r: "run example_config example_context [ValidationCompleted 0 example_message (loss 5)]
        = Inr (s, ctx', ops)"
    by blast
  from trial_cap [OF m] r k have "int (length (trialRungs s)) \<le> MaxTrials example_config"
    by blast
  with m k r show ?thesis by blast
qed

subsection \<open>Closing a trial\<close>

text \<open>
  Claim C3 has \<open>Close\<close> emitted at most once for a trial over a valid event stream. The
  program does otherwise: with one trial allowed and two rungs, the one trial is created,
  validated and left unpromoted, and \<open>closeOutRungs\<close> appends \<open>Close\<close> for it twice, once
  under the test for an early exit and once after it.
\<close>

theorem close_emitted_twice:
  "(case run single_config example_context [ValidationCompleted 0 example_message (loss 1)] of
      Inr (s, ctx, ops) \<Rightarrow> ops
    | Inl p \<Rightarrow> [])
   = [Create 0, Train 0 0 2, Validate 0 2, Close 0, Close 0]"
  by code_simp

subsection \<open>Events for a trial the searcher never created\<close>

text \<open>
  Claim C6, as amended. In every state reached under a valid configuration, a call of
  \<open>validationCompleted\<close> or \<open>trialExitedEarly\<close> with a trial that is not registered
  does not fail: the lookup of the trial gives rung \<open>0\<close>, the call is carried out as for a
  trial on the lowest rung and returns without an error (\<open>validationCompleted\<close> whenever
  the configured metric is present).
\<close>

theorem unknown_trial_proceeds:
  assumes "valid_config cfg" and "run cfg ctx0 evs = Inr (s, ctx, ops0)"
    and "rid \<notin> fst ` set (trialRungs s)"
  shows "trialRungs_lookup s rid = 0 \<and>
         (\<exists>s' ctx' ops. trialExitedEarly s ctx rid message = Inr (s', ctx', ops, None)) \<and>
         (\<forall>v. vm (Metric cfg) = Some v \<longrightarrow>
              (\<exists>s' ctx' ops. validationCompleted s ctx rid message vm = Inr (s', ctx', ops, None)))"
proof -
  from run_ok [OF assms(1), of ctx0 evs] assms(2)
  have ok: "search_ok s" and c: "config s = cfg" by simp_all
  have "map_of (trialRungs s) rid = None"
    using assms(3) by (simp add: map_of_eq_None_iff)
  then have l: "trialRungs_lookup s rid = 0"
    by (simp add: trialRungs_lookup_def)
  have "search_ok (s\<lparr>earlyExitTrials := (earlyExitTrials s)(rid \<mapsto> True)\<rparr>)"
    using ok by simp
  from promote_ok [OF this, of ctx rid message ashaExitedMetricValue]
  have e: "\<exists>s' ctx' ops. trialExitedEarly s ctx rid message = Inr (s', ctx', ops, None)"
    by (auto simp: trialExitedEarly_def)
  have "\<exists>s' ctx' ops. validationCompleted s ctx rid message vm = Inr (s', ctx', ops, None)"
    if "vm (Metric cfg) = Some v" for v
    using promote_ok [OF ok, of ctx rid message "if \<not> SmallerIsBetter cfg then v * (- 1) else v"] that
    by (auto simp: validationCompleted_def ValidationMetrics_Metric_def c)
  with l e show ?thesis by blast
qed

theorem unknown_trial_proceeds_witness:
  "valid_config example_config \<and>
   (\<exists>s ctx ops0.
      run example_config example_context [] = Inr (s, ctx, ops0) \<and>
      7 \<notin> fst ` set (trialRungs s) \<and>
      (\<exists>s' ctx' ops. trialExitedEarly s ctx 7 example_message = Inr (s', ctx', ops, None)))"
proof -
  have v: "valid_config example_config"
    by (simp add: valid_config_def example_config_def)
  have r: "run example_config example_context [] =
      Inr (example_search\<lparr>rungs := [\<lparr>stepsNeeded = 2, outstandingTrials = 3, metrics = []\<rparr>,
                                     \<lparr>stepsNeeded = 4, outstandingTrials = 0, metrics = []\<rparr>],
                           trialRungs := [(0, 0), (1, 0), (2, 0)]\<rparr>,
           \<lparr>rand = 3\<rparr>,
           [Create 0, Train 0 0 2, Validate 0 2, Create 1, Train 1 0 2, Validate 1 2,
            Create 2, Train 2 0 2, Validate 2 2])"
    by (simp add: run_def example_config_def example_context_def example_search_def
          newAsyncHalvingSearch_def new_rung_def go_int_def float_div_def math_Pow_def
          initialOperations_def create_trial_def NewCreate_def trainAndValidate_def
          numeral_2_eq_2 numeral_3_eq_3)
  have k: "7 \<notin> fst ` set (trialRungs (example_search\<lparr>rungs := [\<lparr>stepsNeeded = 2, outstandingTrials = 3, metrics = []\<rparr>,
                                     \<lparr>stepsNeeded = 4, outstandingTrials = 0, metrics = []\<rparr>],
                           trialRungs := [(0, 0), (1, 0), (2, 0)]\<rparr>))"
    by simp
  from unknown_trial_proceeds [OF v r k, of example_message]
  show ?thesis using v r k by blast
qed

text \<open>
  Claim C6 as stated has such a call fail with \<open>UnknownTrial\<close>. On the searcher just
  constructed, with no trial registered, both calls for the trial \<open>7\<close> return no error
  and go on to create a first trial.
\<close>

theorem unknown_trial_no_error:
  "newAsyncHalvingSearch example_config = Inr example_search \<and>
   trialRungs example_search = [] \<and>
   (case validationCompleted example_search example_context 7 example_message (loss 1) of
      Inr (s', ctx', ops, err) \<Rightarrow> Some (err, trialRungs s', ops)
    | Inl p \<Rightarrow> None)
   = Some (None, [(0, 0)], [Create 0, Train 0 0 2, Validate 0 2]) \<and>
   (case trialExitedEarly example_search example_context 7 example_message of
      Inr (s', ctx', ops, err) \<Rightarrow> Some (err, trialRungs s', ops)
    | Inl p \<Rightarrow> None)
   = Some (None, [(0, 0)], [Create 0, Train 0 0 2, Validate 0 2])"
  by (simp add: example_config_def example_context_def example_search_def example_message_def
        loss_def newAsyncHalvingSearch_def new_rung_def go_int_def float_div_def math_Pow_def
        create_trial_def NewCreate_def trainAndValidate_def
        validationCompleted_def trialExitedEarly_def ValidationMetrics_Metric_def promote.simps
        trialRungs_lookup_def promotionsAsync_def Search_def Search_loop.simps promote_finish_def
        closeOutRungs_def Let_def numeral_2_eq_2 numeral_3_eq_3)

subsection \<open>A trial that exits early\<close>



end
